theory Spec2Isabelle
  imports Main
begin

section \<open>Schedule files\<close>

text \<open>
  The four generator scripts under \<^verbatim>\<open>tm_gen/\<close> write a connection matrix line by
  line with \<^verbatim>\<open>print(..., file=f)\<close>.  A line of the file is kept in the shape the
  script formats it in: a flow line is a record of the fields of the formatted string, a
  trigger definition carries its id.  Python integers are unbounded, hence \<open>int\<close>.
\<close>

datatype error = ZeroDivisionError | IndexError | KeyError

text \<open>
  The start condition of a flow line: \<^verbatim>\<open>start 0\<close> or \<^verbatim>\<open>trigger <tid>\<close>.  Two scripts
  format a variable that may hold \<^verbatim>\<open>None\<close> into the line; \<open>TriggerNone\<close> is the text
  \<^verbatim>\<open>trigger None\<close> that Python would then write.
\<close>

datatype start = Start0 | Trigger int | TriggerNone

datatype agg_dir = UP | DOWN

record semantics =
  agg_dir :: agg_dir
  fid :: int
  rid :: int
  cid :: int

record flow =
  src :: int
  dst :: int
  fl_id :: int
  start :: start
  fsize :: int
  send_done_trigger :: "int option"
  sem :: "semantics option"

datatype line =
    Nodes int
  | Connections int
  | Triggers int
  | Comment string
  | IterationComment int
  | Blank
  | FlowL flow
  | TriggerDef int

text \<open>The counters every script keeps while it writes, and the lines written so far.\<close>

record st =
  id_ctr :: int
  trig_id :: int
  connections :: int
  out :: "line list"

text \<open>A \<^verbatim>\<open>for\<close> loop whose body may raise: the first exception ends the run.\<close>

fun for_each :: "('a \<Rightarrow> 's \<Rightarrow> error + 's) \<Rightarrow> 'a list \<Rightarrow> 's \<Rightarrow> error + 's" where
  "for_each body [] s = Inr s"
| "for_each body (x # xs) s =
     (case body x s of Inl e \<Rightarrow> Inl e | Inr s' \<Rightarrow> for_each body xs s')"

text \<open>\<^verbatim>\<open>xs[i]\<close>: a negative index counts from the end, anything else out of range raises.\<close>

definition py_index :: "'a list \<Rightarrow> int \<Rightarrow> error + 'a" where
  "py_index xs i =
     (if 0 \<le> i \<and> i < int (length xs) then Inr (xs ! nat i)
      else if i < 0 \<and> - int (length xs) \<le> i then Inr (xs ! nat (int (length xs) + i))
      else Inl IndexError)"

text \<open>\<^verbatim>\<open>[f(x) for x in xs]\<close> where \<open>f\<close> may raise.\<close>

fun py_map :: "('a \<Rightarrow> error + 'b) \<Rightarrow> 'a list \<Rightarrow> error + 'b list" where
  "py_map f [] = Inr []"
| "py_map f (x # xs) =
     (case f x of
        Inl e \<Rightarrow> Inl e
      | Inr y \<Rightarrow> (case py_map f xs of Inl e \<Rightarrow> Inl e | Inr ys \<Rightarrow> Inr (y # ys)))"

text \<open>\<^verbatim>\<open>f"trigger {t}"\<close> for a variable that holds a trigger id or \<^verbatim>\<open>None\<close>.\<close>

definition trigger_str :: "int option \<Rightarrow> start" where
  "trigger_str t = (case t of None \<Rightarrow> TriggerNone | Some v \<Rightarrow> Trigger v)"

text \<open>
  Python's \<^verbatim>\<open>random\<close> module is not part of the repository: the generator state the
  process starts with (seeded from the operating system), \<^verbatim>\<open>seed\<close> and \<^verbatim>\<open>shuffle\<close>
  are parameters of the model.  Each script shuffles at most once, so the state after the
  shuffle is not kept.
\<close>

record 'g random =
  initial :: 'g
  seed :: "int \<Rightarrow> 'g"
  shuffle :: "'g \<Rightarrow> int list \<Rightarrow> int list"

text \<open>\<^verbatim>\<open>print(out, file=f)\<close>: one more line at the end of the file.\<close>

definition print_line :: "line \<Rightarrow> 'a st_scheme \<Rightarrow> 'a st_scheme" where
  "print_line l s = s\<lparr>out := out s @ [l]\<rparr>"

text \<open>What a reader of the file sees: its flow lines, its trigger definitions, its header.\<close>

fun flows_of :: "line list \<Rightarrow> flow list" where
  "flows_of [] = []"
| "flows_of (FlowL f # ls) = f # flows_of ls"
| "flows_of (_ # ls) = flows_of ls"

fun trigger_defs :: "line list \<Rightarrow> int list" where
  "trigger_defs [] = []"
| "trigger_defs (TriggerDef t # ls) = t # trigger_defs ls"
| "trigger_defs (_ # ls) = trigger_defs ls"

fun connections_header :: "line list \<Rightarrow> int list" where
  "connections_header [] = []"
| "connections_header (Connections c # ls) = c # connections_header ls"
| "connections_header (_ # ls) = connections_header ls"

fun triggers_header :: "line list \<Rightarrow> int list" where
  "triggers_header [] = []"
| "triggers_header (Triggers t # ls) = t # triggers_header ls"
| "triggers_header (_ # ls) = triggers_header ls"

text \<open>\<^verbatim>\<open>for t in range(1, trig_id + 1): print(f"trigger id {t} oneshot", file=f)\<close>.\<close>

definition trigger_section :: "int \<Rightarrow> line list" where
  "trigger_section t = map TriggerDef [1..t]"

text \<open>
  \<^verbatim>\<open>lines.insert(1, insert_line)\<close> on the lines read back, then \<^verbatim>\<open>writelines\<close>:
  \<^verbatim>\<open>insert_line\<close> holds the \<^verbatim>\<open>Connections\<close> line and the \<^verbatim>\<open>Triggers\<close> line, which go
  after the first line of the file.
\<close>

definition insert_header :: "int \<Rightarrow> int \<Rightarrow> line list \<Rightarrow> line list" where
  "insert_header c t ls = take 1 ls @ [Connections c, Triggers t] @ drop 1 ls"

section \<open>Tree generator (\<^verbatim>\<open>gen_allreduce_tree_extended.py\<close>)\<close>

text \<open>
  \<^verbatim>\<open>children[i] = []\<close> for every node, then every node \<open>i \<ge> 1\<close> is linked to
  \<^verbatim>\<open>(i - 1) // branch_factor\<close>.  Both are dictionaries: a parent that is not a key of
  \<^verbatim>\<open>children\<close> raises \<^verbatim>\<open>KeyError\<close>, a zero branch factor \<^verbatim>\<open>ZeroDivisionError\<close>.
\<close>

type_synonym tree_maps = "(int \<rightharpoonup> int list) \<times> (int \<rightharpoonup> int)"

definition tree_link :: "int \<Rightarrow> int \<Rightarrow> tree_maps \<Rightarrow> error + tree_maps" where
  "tree_link branch_factor i m =
     (case m of (children, parents) \<Rightarrow>
        if branch_factor = 0 then Inl ZeroDivisionError
        else let parent = (i - 1) div branch_factor in
          (case children parent of
             None \<Rightarrow> Inl KeyError
           | Some cs \<Rightarrow> Inr (children(parent \<mapsto> cs @ [i]), parents(i \<mapsto> parent))))"

definition tree_parent_child :: "int \<Rightarrow> int \<Rightarrow> error + tree_maps" where
  "tree_parent_child nodes branch_factor =
     for_each (tree_link branch_factor) [1..nodes - 1]
       (fold (\<lambda>i children. children(i \<mapsto> [])) [0..nodes - 1] Map.empty, Map.empty)"

text \<open>Phase 1: nodes \<open>nodes-1\<close> down to \<open>1\<close> send to their parent, starting at once.\<close>

definition tree_up :: "(int \<rightharpoonup> int) \<Rightarrow> int \<Rightarrow> int \<Rightarrow> st \<Rightarrow> error + st" where
  "tree_up parents flowsize i s =
     (case parents i of
        None \<Rightarrow> Inl KeyError
      | Some d \<Rightarrow>
          Inr ((print_line (FlowL \<lparr>src = i, dst = d, fl_id = id_ctr s + 1, start = Start0,
                  fsize = flowsize, send_done_trigger = Some (trig_id s), sem = None\<rparr>) s)
               \<lparr>id_ctr := id_ctr s + 1, trig_id := trig_id s + 1\<rparr>))"

definition tree_upward :: "(int \<rightharpoonup> int) \<Rightarrow> int \<Rightarrow> int \<Rightarrow> st \<Rightarrow> error + st" where
  "tree_upward parents nodes flowsize s =
     for_each (tree_up parents flowsize) (rev [1..nodes - 1])
       (print_line (Comment ''# Phase 1: Upward Reduction'') s)"

text \<open>
  Phase 2: every parent, in ascending order, sends to each of its children, gated on
  \<^verbatim>\<open>trig_id - (nodes - 1)\<close>; every child but the last of its parent gets a completion
  trigger.
\<close>

definition tree_down_child :: "int \<Rightarrow> int \<Rightarrow> int \<Rightarrow> int list \<Rightarrow> int \<Rightarrow> st \<Rightarrow> st" where
  "tree_down_child nodes flowsize parent cs child s =
     (if child \<noteq> last cs
      then (print_line (FlowL \<lparr>src = parent, dst = child, fl_id = id_ctr s + 1,
                start = Trigger (trig_id s - (nodes - 1)), fsize = flowsize,
                send_done_trigger = Some (trig_id s), sem = None\<rparr>) s)
             \<lparr>id_ctr := id_ctr s + 1, trig_id := trig_id s + 1\<rparr>
      else (print_line (FlowL \<lparr>src = parent, dst = child, fl_id = id_ctr s + 1,
                start = Trigger (trig_id s - (nodes - 1)), fsize = flowsize,
                send_done_trigger = None, sem = None\<rparr>) s)
             \<lparr>id_ctr := id_ctr s + 1\<rparr>)"

definition tree_down_parent ::
    "(int \<rightharpoonup> int list) \<Rightarrow> int \<Rightarrow> int \<Rightarrow> int \<Rightarrow> st \<Rightarrow> error + st" where
  "tree_down_parent children nodes flowsize parent s =
     (case children parent of
        None \<Rightarrow> Inl KeyError
      | Some cs \<Rightarrow> Inr (fold (tree_down_child nodes flowsize parent cs) cs s))"

definition tree_downward ::
    "(int \<rightharpoonup> int list) \<Rightarrow> int \<Rightarrow> int \<Rightarrow> st \<Rightarrow> error + st" where
  "tree_downward children nodes flowsize s =
     for_each (tree_down_parent children nodes flowsize) [0..nodes - 1]
       (print_line (Comment ''# Phase 2: Downward Broadcast'') s)"

text \<open>
  The whole script.  The header is printed before the body, from the formula
  \<^verbatim>\<open>(nodes - 1) * 2\<close> for both counts.  \<^verbatim>\<open>seed(randseed)\<close> is called for a nonzero
  seed, but the script never draws a random number, so the generator state does not reach
  the output.
\<close>

definition tree_init :: "int \<Rightarrow> st" where
  "tree_init nodes =
     \<lparr>id_ctr = 0, trig_id = 1, connections = (nodes - 1) * 2,
      out = [Nodes nodes, Connections ((nodes - 1) * 2), Triggers ((nodes - 1) * 2)]\<rparr>"

definition gen_allreduce_tree ::
    "'g random \<Rightarrow> int \<Rightarrow> int \<Rightarrow> int \<Rightarrow> int \<Rightarrow> error + line list" where
  "gen_allreduce_tree R nodes branch_factor flowsize randseed =
     (let g = (if randseed \<noteq> 0 then seed R randseed else initial R) in
      case tree_parent_child nodes branch_factor of
        Inl e \<Rightarrow> Inl e
      | Inr (children, parents) \<Rightarrow>
          (case tree_upward parents nodes flowsize (tree_init nodes) of
             Inl e \<Rightarrow> Inl e
           | Inr s1 \<Rightarrow>
               (case tree_downward children nodes flowsize s1 of
                  Inl e \<Rightarrow> Inl e
                | Inr s2 \<Rightarrow>
                    Inr (out s2 @ [Comment ''# Trigger Section'']
                           @ trigger_section (trig_id s2)))))"

section \<open>Supernode generator (\<^verbatim>\<open>gen_allreduce_supernode.py\<close>)\<close>

record sn_st = st +
  phase1_send_done_triggers :: "int list"
  phase2_trigger :: "int option"
  next_iteration_trigger :: "int option"

text \<open>Phase 1 of one iteration: the body of \<^verbatim>\<open>for i, node in enumerate(regular_nodes)\<close>.\<close>

definition sn_phase1_send :: "int \<Rightarrow> int \<Rightarrow> int \<Rightarrow> nat \<times> int \<Rightarrow> sn_st \<Rightarrow> sn_st" where
  "sn_phase1_send supernode_id flowsize iteration p s =
     (case p of (i, node) \<Rightarrow>
        let gate =
              (if iteration = 0 \<and> i = 0 then Start0
               else if iteration > 0 \<and> i = 0 then trigger_str (next_iteration_trigger s)
               else if iteration = 0 then Start0
               else trigger_str (next_iteration_trigger s))
        in (print_line (FlowL \<lparr>src = node, dst = supernode_id, fl_id = id_ctr s + 1,
                start = gate, fsize = flowsize,
                send_done_trigger = Some (trig_id s + 1), sem = None\<rparr>) s)
             \<lparr>id_ctr := id_ctr s + 1, trig_id := trig_id s + 1,
              connections := connections s + 1,
              phase1_send_done_triggers := phase1_send_done_triggers s @ [trig_id s + 1]\<rparr>)"

text \<open>Phase 2 of one iteration: the body of \<^verbatim>\<open>for i, dest in enumerate(regular_nodes)\<close>.\<close>

definition sn_phase2_send ::
    "int \<Rightarrow> int \<Rightarrow> int \<Rightarrow> int \<Rightarrow> nat \<Rightarrow> nat \<times> int \<Rightarrow> sn_st \<Rightarrow> sn_st" where
  "sn_phase2_send supernode_id flowsize iterations iteration len p s =
     (case p of (i, dest) \<Rightarrow>
        let with_trigger =
              (print_line (FlowL \<lparr>src = supernode_id, dst = dest, fl_id = id_ctr s + 1,
                  start = trigger_str (phase2_trigger s), fsize = flowsize,
                  send_done_trigger = Some (trig_id s + 1), sem = None\<rparr>) s)
               \<lparr>id_ctr := id_ctr s + 1, trig_id := trig_id s + 1,
                connections := connections s + 1,
                phase2_trigger := Some (trig_id s + 1)\<rparr>;
            without_trigger =
              (print_line (FlowL \<lparr>src = supernode_id, dst = dest, fl_id = id_ctr s + 1,
                  start = trigger_str (phase2_trigger s), fsize = flowsize,
                  send_done_trigger = None, sem = None\<rparr>) s)
               \<lparr>id_ctr := id_ctr s + 1, connections := connections s + 1,
                phase2_trigger := None\<rparr>
        in if int i < int len - 1 then with_trigger
           else if iteration < iterations - 1 then with_trigger
           else without_trigger)"

text \<open>
  One iteration.  \<^verbatim>\<open>phase1_send_done_triggers[-1]\<close> raises \<^verbatim>\<open>IndexError\<close> when there
  is no regular node.
\<close>

definition sn_iteration ::
    "int list \<Rightarrow> int \<Rightarrow> int \<Rightarrow> int \<Rightarrow> int \<Rightarrow> sn_st \<Rightarrow> error + sn_st" where
  "sn_iteration regular_nodes supernode_id flowsize iterations iteration s =
     (let s1 = fold (sn_phase1_send supernode_id flowsize iteration)
                 (List.enumerate 0 regular_nodes) (s\<lparr>phase1_send_done_triggers := []\<rparr>)
      in case py_index (phase1_send_done_triggers s1) (- 1) of
           Inl e \<Rightarrow> Inl e
         | Inr phase2_start_trigger \<Rightarrow>
             let s2 = fold (sn_phase2_send supernode_id flowsize iterations iteration
                              (length regular_nodes))
                        (List.enumerate 0 regular_nodes)
                        (s1\<lparr>phase2_trigger := Some phase2_start_trigger\<rparr>)
             in Inr (s2\<lparr>next_iteration_trigger := phase2_trigger s2\<rparr>))"

definition sn_regular_nodes :: "'g random \<Rightarrow> int \<Rightarrow> int \<Rightarrow> int list" where
  "sn_regular_nodes R nodes randseed =
     (if randseed \<noteq> 0 then shuffle R (seed R randseed) [0..(nodes - 1) - 1]
      else [0..(nodes - 1) - 1])"

definition sn_init :: "int \<Rightarrow> sn_st" where
  "sn_init nodes =
     \<lparr>id_ctr = 0, trig_id = 1, connections = 0, out = [Nodes nodes],
      phase1_send_done_triggers = [], phase2_trigger = None,
      next_iteration_trigger = None\<rparr>"

definition sn_run :: "int list \<Rightarrow> int \<Rightarrow> int \<Rightarrow> int \<Rightarrow> error + sn_st" where
  "sn_run regular_nodes nodes flowsize iterations =
     for_each (sn_iteration regular_nodes (nodes - 1) flowsize iterations)
       [0..iterations - 1] (sn_init nodes)"

definition gen_allreduce_supernode ::
    "'g random \<Rightarrow> int \<Rightarrow> int \<Rightarrow> int \<Rightarrow> int \<Rightarrow> error + line list" where
  "gen_allreduce_supernode R nodes flowsize iterations randseed =
     (case sn_run (sn_regular_nodes R nodes randseed) nodes flowsize iterations of
        Inl e \<Rightarrow> Inl e
      | Inr s \<Rightarrow>
          let trigger_lines = trigger_section (trig_id s);
              trigger_count = int (length trigger_lines)
          in Inr (insert_header (connections s) trigger_count (out s @ trigger_lines)))"

section \<open>IncHierarchical generator (\<^verbatim>\<open>gen_allreduce_inc_ded_pod.py\<close>)\<close>

record inc_st = st +
  last_downlink_trigger :: "int list"
  iteration_start_trigger :: "int option"
  last_upload_trig :: "int option"
  last_down_trig :: "int option"

definition nodes_per_pod :: "int \<Rightarrow> int" where
  "nodes_per_pod k = k * k div 4"

text \<open>\<^verbatim>\<open>AGG_POD = 0\<close>, so the aggregator nodes are \<^verbatim>\<open>range(0, POD_SIZE)\<close>.\<close>

definition agg_nodes :: "int \<Rightarrow> int list" where
  "agg_nodes k =
     (let POD_SIZE = nodes_per_pod k; AGG_POD = 0;
          AGG_POD_START = AGG_POD * POD_SIZE;
          AGG_POD_END = AGG_POD_START + POD_SIZE - 1
      in [AGG_POD_START..(AGG_POD_END + 1) - 1])"

definition start_or_trigger_str :: "int option \<Rightarrow> start" where
  "start_or_trigger_str start_tr =
     (if start_tr = None \<or> start_tr = Some 0 then Start0
      else trigger_str start_tr)"

text \<open>\<^verbatim>\<open>agg_nodes[cid % len(agg_nodes)]\<close>: the modulus raises on an empty list.\<close>

definition chunk_to_agg_node :: "int list \<Rightarrow> int \<Rightarrow> error + int" where
  "chunk_to_agg_node aggs c =
     (if length aggs = 0 then Inl ZeroDivisionError
      else py_index aggs (c mod int (length aggs)))"

definition chunk_start :: "int \<Rightarrow> int \<Rightarrow> inc_st \<Rightarrow> error + int option" where
  "chunk_start window c s =
     (if c < window then Inr (iteration_start_trigger s)
      else (case py_index (last_downlink_trigger s) (c - window) of
              Inl e \<Rightarrow> Inl e
            | Inr prev_t \<Rightarrow>
                Inr (if prev_t \<noteq> - 1 then Some prev_t else iteration_start_trigger s)))"

definition inc_uplink ::
    "int \<Rightarrow> int option \<Rightarrow> int \<Rightarrow> int \<Rightarrow> int \<Rightarrow> int \<Rightarrow> int \<Rightarrow> inc_st \<Rightarrow> inc_st" where
  "inc_uplink dst_agg chunk_start_trigger flowsize f r c h s =
     (if h = dst_agg then s
      else (print_line (FlowL \<lparr>src = h, dst = dst_agg, fl_id = id_ctr s + 1,
                start = start_or_trigger_str chunk_start_trigger, fsize = flowsize,
                send_done_trigger = Some (trig_id s + 1),
                sem = Some \<lparr>agg_dir = UP, fid = f, rid = r, cid = c\<rparr>\<rparr>) s)
             \<lparr>id_ctr := id_ctr s + 1, trig_id := trig_id s + 1,
              connections := connections s + 1,
              last_upload_trig := Some (trig_id s + 1)\<rparr>)"

text \<open>\<^verbatim>\<open>if last_upload_trig is None: trig_id += 1; last_upload_trig = trig_id\<close>.\<close>

definition ensure_upload_trig :: "inc_st \<Rightarrow> inc_st" where
  "ensure_upload_trig s =
     (if last_upload_trig s = None
      then s\<lparr>trig_id := trig_id s + 1, last_upload_trig := Some (trig_id s + 1)\<rparr>
      else s)"

definition inc_downlink ::
    "int \<Rightarrow> int \<Rightarrow> int \<Rightarrow> int \<Rightarrow> int \<Rightarrow> int \<Rightarrow> inc_st \<Rightarrow> inc_st" where
  "inc_downlink dst_agg flowsize f r c h s =
     (if h = dst_agg then s
      else (print_line (FlowL \<lparr>src = dst_agg, dst = h, fl_id = id_ctr s + 1,
                start = trigger_str (last_upload_trig s), fsize = flowsize,
                send_done_trigger = Some (trig_id s + 1),
                sem = Some \<lparr>agg_dir = DOWN, fid = f, rid = r, cid = c\<rparr>\<rparr>) s)
             \<lparr>id_ctr := id_ctr s + 1, trig_id := trig_id s + 1,
              connections := connections s + 1,
              last_down_trig := Some (trig_id s + 1)\<rparr>)"

text \<open>
  \<^verbatim>\<open>if last_down_trig is None: trig_id += 1; last_down_trig = trig_id\<close>, then
  \<^verbatim>\<open>last_downlink_trigger[c] = last_down_trig\<close>.  The index is the loop variable of
  \<^verbatim>\<open>range(chunks)\<close> and the list has \<^verbatim>\<open>chunks\<close> entries, so the store is in range.
\<close>

definition record_down_trig :: "int \<Rightarrow> inc_st \<Rightarrow> inc_st" where
  "record_down_trig c s =
     (case last_down_trig s of
        None \<Rightarrow> s\<lparr>trig_id := trig_id s + 1, last_down_trig := Some (trig_id s + 1),
                 last_downlink_trigger := (last_downlink_trigger s)[nat c := trig_id s + 1]\<rparr>
      | Some t \<Rightarrow> s\<lparr>last_downlink_trigger := (last_downlink_trigger s)[nat c := t]\<rparr>)"

text \<open>The body of \<^verbatim>\<open>for c in range(chunks)\<close>.\<close>

definition inc_chunk ::
    "int list \<Rightarrow> int list \<Rightarrow> int \<Rightarrow> int \<Rightarrow> int \<Rightarrow> int \<Rightarrow> int \<Rightarrow> inc_st \<Rightarrow> error + inc_st" where
  "inc_chunk hosts aggs flowsize f window r c s =
     (case chunk_start window c s of
        Inl e \<Rightarrow> Inl e
      | Inr chunk_start_trigger \<Rightarrow>
          (case chunk_to_agg_node aggs c of
             Inl e \<Rightarrow> Inl e
           | Inr dst_agg \<Rightarrow>
               let s1 = fold (inc_uplink dst_agg chunk_start_trigger flowsize f r c) hosts
                          (s\<lparr>last_upload_trig := None\<rparr>);
                   s2 = ensure_upload_trig s1;
                   s3 = fold (inc_downlink dst_agg flowsize f r c) hosts
                          (s2\<lparr>last_down_trig := None\<rparr>)
               in Inr (record_down_trig c s3)))"

text \<open>The body of \<^verbatim>\<open>for it in range(iterations)\<close>.\<close>

definition inc_iteration ::
    "int list \<Rightarrow> int list \<Rightarrow> int \<Rightarrow> int \<Rightarrow> int \<Rightarrow> int \<Rightarrow> int \<Rightarrow> inc_st \<Rightarrow> error + inc_st" where
  "inc_iteration hosts aggs flowsize chunks f window it s =
     (let r = it + 1 in
      case for_each (inc_chunk hosts aggs flowsize f window r) [0..chunks - 1]
             (print_line (IterationComment r) (print_line Blank s)) of
        Inl e \<Rightarrow> Inl e
      | Inr s' \<Rightarrow>
          (case py_index (last_downlink_trigger s') (chunks - 1) of
             Inl e \<Rightarrow> Inl e
           | Inr t \<Rightarrow> Inr (s'\<lparr>iteration_start_trigger := Some t\<rparr>)))"

definition inc_init :: "int \<Rightarrow> int \<Rightarrow> inc_st" where
  "inc_init nodes chunks =
     \<lparr>id_ctr = 0, trig_id = 1, connections = 0, out = [Nodes nodes],
      last_downlink_trigger = replicate (nat chunks) (- 1),
      iteration_start_trigger = None, last_upload_trig = None, last_down_trig = None\<rparr>"

definition inc_run ::
    "int \<Rightarrow> int \<Rightarrow> int \<Rightarrow> int \<Rightarrow> int \<Rightarrow> int \<Rightarrow> int \<Rightarrow> error + inc_st" where
  "inc_run nodes k flowsize chunks f iterations window =
     for_each (inc_iteration [0..nodes - 1] (agg_nodes k) flowsize chunks f window)
       [0..iterations - 1] (inc_init nodes chunks)"

text \<open>
  The whole script.  \<^verbatim>\<open>seed(randseed)\<close> is called for a nonzero seed; \<^verbatim>\<open>hosts\<close> is
  never shuffled.  The header takes the trigger count from \<^verbatim>\<open>trig_id\<close> itself.
\<close>

definition gen_allreduce_inc ::
    "'g random \<Rightarrow> int \<Rightarrow> int \<Rightarrow> int \<Rightarrow> int \<Rightarrow> int \<Rightarrow> int \<Rightarrow> int \<Rightarrow> int \<Rightarrow> error + line list" where
  "gen_allreduce_inc R nodes k flowsize chunks f iterations window randseed =
     (let g = (if randseed \<noteq> 0 then seed R randseed else initial R) in
      case inc_run nodes k flowsize chunks f iterations window of
        Inl e \<Rightarrow> Inl e
      | Inr s \<Rightarrow>
          Inr (insert_header (connections s) (trig_id s)
                 (out s @ [Blank, Comment ''# --- TRIGGERS ---'']
                    @ trigger_section (trig_id s))))"

section \<open>Ring generator (\<^verbatim>\<open>gen_allreduce_extended.py\<close>)\<close>

record ring_st = st +
  group_end_triggers :: "int list"
  leader_triggers :: "int list"

text \<open>\<^verbatim>\<open>[srcs[group * groupsize + n] for n in range(groupsize)]\<close>.\<close>

definition group_srcs :: "int list \<Rightarrow> int \<Rightarrow> int \<Rightarrow> error + int list" where
  "group_srcs srcs groupsize g =
     py_map (\<lambda>n. py_index srcs (g * groupsize + n)) [0..groupsize - 1]"

text \<open>
  Phase 1, the body of \<^verbatim>\<open>for d in range(1, groupsize)\<close>: step \<open>d\<close> of the chain that
  starts at position \<open>s\<close> of the ring.
\<close>

definition ring_reduce_step ::
    "int list \<Rightarrow> int \<Rightarrow> int \<Rightarrow> int \<Rightarrow> int \<Rightarrow> ring_st \<Rightarrow> error + ring_st" where
  "ring_reduce_step groupsrcs groupsize flowsize s d st0 =
     (case py_index groupsrcs ((s + d - 1) mod groupsize) of
        Inl e \<Rightarrow> Inl e
      | Inr a \<Rightarrow>
          (case py_index groupsrcs ((s + d) mod groupsize) of
             Inl e \<Rightarrow> Inl e
           | Inr b \<Rightarrow>
               let gate = (if d = 1 then Start0 else Trigger (trig_id st0));
                   t = (if d = 1 then trig_id st0 else trig_id st0 + 1)
               in Inr ((print_line (FlowL \<lparr>src = a, dst = b, fl_id = id_ctr st0 + 1,
                            start = gate, fsize = flowsize,
                            send_done_trigger = (if d \<noteq> groupsize - 1 then Some t else None),
                            sem = None\<rparr>) st0)
                        \<lparr>id_ctr := id_ctr st0 + 1, trig_id := t,
                         connections := connections st0 + 1\<rparr>)))"

definition ring_reduce_group ::
    "int list \<Rightarrow> int \<Rightarrow> int \<Rightarrow> int \<Rightarrow> int \<Rightarrow> ring_st \<Rightarrow> error + ring_st" where
  "ring_reduce_group srcs groupsize flowsize locality g st0 =
     (case group_srcs srcs groupsize g of
        Inl e \<Rightarrow> Inl e
      | Inr gs \<Rightarrow>
          let groupsrcs = (if locality = 1 then sort gs else gs) in
          (case for_each
                  (\<lambda>s. for_each (ring_reduce_step groupsrcs groupsize flowsize s)
                         [1..groupsize - 1])
                  [0..groupsize - 1] st0 of
             Inl e \<Rightarrow> Inl e
           | Inr st1 \<Rightarrow>
               Inr (st1\<lparr>group_end_triggers := group_end_triggers st1 @ [trig_id st1 - 1]\<rparr>)))"

definition ring_phase1 ::
    "int list \<Rightarrow> int \<Rightarrow> int \<Rightarrow> int \<Rightarrow> int \<Rightarrow> ring_st \<Rightarrow> error + ring_st" where
  "ring_phase1 srcs groups groupsize flowsize locality st0 =
     for_each (ring_reduce_group srcs groupsize flowsize locality) [0..groups - 1] st0"

text \<open>Phase 2, the body of \<^verbatim>\<open>for g in range(groups)\<close>: the leader of ring \<open>g\<close>.\<close>

definition ring_leader ::
    "int list \<Rightarrow> int \<Rightarrow> int \<Rightarrow> int \<Rightarrow> int \<Rightarrow> ring_st \<Rightarrow> error + ring_st" where
  "ring_leader srcs groups groupsize flowsize g st0 =
     (case py_index srcs (g * groupsize) of
        Inl e \<Rightarrow> Inl e
      | Inr leader \<Rightarrow>
          (case py_index srcs (((g + 1) mod groups) * groupsize) of
             Inl e \<Rightarrow> Inl e
           | Inr next_leader \<Rightarrow>
               (case py_index (group_end_triggers st0) g of
                  Inl e \<Rightarrow> Inl e
                | Inr gate \<Rightarrow>
                    Inr ((print_line (FlowL \<lparr>src = leader, dst = next_leader,
                              fl_id = id_ctr st0 + 1, start = Trigger gate,
                              fsize = flowsize div 10,
                              send_done_trigger = Some (trig_id st0 + 1), sem = None\<rparr>) st0)
                          \<lparr>id_ctr := id_ctr st0 + 1, trig_id := trig_id st0 + 1,
                           connections := connections st0 + 1,
                           leader_triggers := leader_triggers st0 @ [trig_id st0 + 1]\<rparr>))))"

definition ring_phase2 ::
    "int list \<Rightarrow> int \<Rightarrow> int \<Rightarrow> int \<Rightarrow> ring_st \<Rightarrow> error + ring_st" where
  "ring_phase2 srcs groups groupsize flowsize st0 =
     for_each (ring_leader srcs groups groupsize flowsize) [0..groups - 1]
       (st0\<lparr>leader_triggers := []\<rparr>)"

text \<open>
  Phase 3, the body of \<^verbatim>\<open>for s in range(groupsize - 1)\<close>; the local
  \<^verbatim>\<open>leader_done_trigger\<close> travels with the state.
\<close>

definition ring_bcast_step ::
    "int list \<Rightarrow> int \<Rightarrow> int \<Rightarrow> int \<Rightarrow> int \<times> ring_st \<Rightarrow> error + int \<times> ring_st" where
  "ring_bcast_step groupsrcs groupsize flowsize s p =
     (case p of (leader_done_trigger, st0) \<Rightarrow>
        (case py_index groupsrcs s of
           Inl e \<Rightarrow> Inl e
         | Inr a \<Rightarrow>
             (case py_index groupsrcs (s + 1) of
                Inl e \<Rightarrow> Inl e
              | Inr b \<Rightarrow>
                  if s < groupsize - 2
                  then Inr (trig_id st0 + 1,
                         (print_line (FlowL \<lparr>src = a, dst = b, fl_id = id_ctr st0 + 1,
                              start = Trigger leader_done_trigger, fsize = flowsize,
                              send_done_trigger = Some (trig_id st0 + 1), sem = None\<rparr>) st0)
                          \<lparr>id_ctr := id_ctr st0 + 1, trig_id := trig_id st0 + 1,
                           connections := connections st0 + 1\<rparr>)
                  else Inr (leader_done_trigger,
                         (print_line (FlowL \<lparr>src = a, dst = b, fl_id = id_ctr st0 + 1,
                              start = Trigger leader_done_trigger, fsize = flowsize,
                              send_done_trigger = None, sem = None\<rparr>) st0)
                          \<lparr>id_ctr := id_ctr st0 + 1,
                           connections := connections st0 + 1\<rparr>))))"

definition ring_bcast_group ::
    "int list \<Rightarrow> int \<Rightarrow> int \<Rightarrow> int \<Rightarrow> ring_st \<Rightarrow> error + ring_st" where
  "ring_bcast_group srcs groupsize flowsize g st0 =
     (case group_srcs srcs groupsize g of
        Inl e \<Rightarrow> Inl e
      | Inr groupsrcs \<Rightarrow>
          (case py_index groupsrcs 0 of
             Inl e \<Rightarrow> Inl e
           | Inr leader \<Rightarrow>
               (case py_index (leader_triggers st0) g of
                  Inl e \<Rightarrow> Inl e
                | Inr leader_done_trigger \<Rightarrow>
                    (case for_each (ring_bcast_step groupsrcs groupsize flowsize)
                            [0..(groupsize - 1) - 1] (leader_done_trigger, st0) of
                       Inl e \<Rightarrow> Inl e
                     | Inr (t, st1) \<Rightarrow> Inr st1))))"

definition ring_phase3 ::
    "int list \<Rightarrow> int \<Rightarrow> int \<Rightarrow> int \<Rightarrow> ring_st \<Rightarrow> error + ring_st" where
  "ring_phase3 srcs groups groupsize flowsize st0 =
     for_each (ring_bcast_group srcs groupsize flowsize) [0..groups - 1] st0"

text \<open>
  \<^verbatim>\<open>if randseed != 0: seed(randseed)\<close> and then, outside the \<^verbatim>\<open>if\<close>,
  \<^verbatim>\<open>shuffle(srcs)\<close>: the node order is shuffled for every seed, from the seeded state
  for a nonzero seed and from the state the process started with for seed \<open>0\<close>.
\<close>

definition ring_srcs :: "'g random \<Rightarrow> int \<Rightarrow> int \<Rightarrow> int list" where
  "ring_srcs R nodes randseed =
     shuffle R (if randseed \<noteq> 0 then seed R randseed else initial R) [0..nodes - 1]"

definition ring_init :: "int \<Rightarrow> ring_st" where
  "ring_init nodes =
     \<lparr>id_ctr = 0, trig_id = 1, connections = 0, out = [Nodes nodes],
      group_end_triggers = [], leader_triggers = []\<rparr>"

definition ring_run ::
    "int list \<Rightarrow> int \<Rightarrow> int \<Rightarrow> int \<Rightarrow> int \<Rightarrow> int \<Rightarrow> error + ring_st" where
  "ring_run srcs nodes groups groupsize flowsize locality =
     (case ring_phase1 srcs groups groupsize flowsize locality (ring_init nodes) of
        Inl e \<Rightarrow> Inl e
      | Inr s1 \<Rightarrow>
          (case ring_phase2 srcs groups groupsize flowsize s1 of
             Inl e \<Rightarrow> Inl e
           | Inr s2 \<Rightarrow> ring_phase3 srcs groups groupsize flowsize s2))"

definition gen_allreduce_ring ::
    "'g random \<Rightarrow> int \<Rightarrow> int \<Rightarrow> int \<Rightarrow> int \<Rightarrow> int \<Rightarrow> int \<Rightarrow> error + line list" where
  "gen_allreduce_ring R nodes conns groupsize flowsize locality randseed =
     (if groupsize = 0 then Inl ZeroDivisionError
      else
        (case ring_run (ring_srcs R nodes randseed) nodes (conns div groupsize) groupsize
                flowsize locality of
           Inl e \<Rightarrow> Inl e
         | Inr s \<Rightarrow>
             let trigger_lines = trigger_section (trig_id s);
                 trigger_count = int (length trigger_lines)
             in Inr (insert_header (connections s) trigger_count
                       (out s @ trigger_lines))))"

section \<open>Reading a schedule\<close>

text \<open>
  The lines a run leaves in the file (none when it raised), and the flow lines written
  up to some point of a run.
\<close>

definition lines_of :: "error + line list \<Rightarrow> line list" where
  "lines_of r = (case r of Inl e \<Rightarrow> [] | Inr ls \<Rightarrow> ls)"

definition flows_after :: "error + 'a st_scheme \<Rightarrow> flow list" where
  "flows_after r = (case r of Inl e \<Rightarrow> [] | Inr s \<Rightarrow> flows_of (out s))"

text \<open>
  The dependency graph of a schedule: an edge from flow \<open>x\<close> to flow \<open>y\<close> when the
  completion trigger of \<open>x\<close> is the start gate of \<open>y\<close>.
\<close>

definition gating :: "flow list \<Rightarrow> (flow \<times> flow) set" where
  "gating fs =
     {(x, y). x \<in> set fs \<and> y \<in> set fs \<and>
        (\<exists>t. send_done_trigger x = Some t \<and> start y = Trigger t)}"

text \<open>A trigger id that is declared but that no flow line attaches or waits for.\<close>

definition unused_trigger :: "int \<Rightarrow> line list \<Rightarrow> bool" where
  "unused_trigger t ls \<longleftrightarrow>
     t \<in> set (trigger_defs ls) \<and>
     (\<forall>f \<in> set (flows_of ls). send_done_trigger f \<noteq> Some t \<and> start f \<noteq> Trigger t)"

text \<open>
  The flows of one direction that carry the annotation of iteration \<open>r\<close> and chunk
  \<open>c\<close>, in file order.
\<close>

definition is_chunk_flow :: "agg_dir \<Rightarrow> int \<Rightarrow> int \<Rightarrow> flow \<Rightarrow> bool" where
  "is_chunk_flow dir r c f =
     (case sem f of
        None \<Rightarrow> False
      | Some m \<Rightarrow> agg_dir m = dir \<and> rid m = r \<and> cid m = c)"

definition chunk_flows :: "agg_dir \<Rightarrow> int \<Rightarrow> int \<Rightarrow> flow list \<Rightarrow> flow list" where
  "chunk_flows dir r c fs = filter (is_chunk_flow dir r c) fs"

text \<open>
  A stand-in for the \<^verbatim>\<open>random\<close> module where a run is evaluated: the generator state
  is a natural number, seeding takes the magnitude of the seed, and shuffling rotates the
  list by the state.  The process starts in state \<open>0\<close>.
\<close>

definition demo_random :: "nat random" where
  "demo_random = \<lparr>initial = 0, seed = (\<lambda>a. nat \<bar>a\<bar>), shuffle = rotate\<rparr>"

section \<open>Replaying a schedule\<close>

text \<open>
  Modelled from the spec: the simulator that replays a schedule is not among the
  generator scripts.  The spec gives the rule a replay follows: a trigger fires exactly
  once, when the flow that names it as a completion event finishes, and a flow written
  with a trigger as its start condition starts only after the named trigger fires.  A
  replay records, for each flow line, the simulated time at which the flow started and
  the time at which it finished, when it did.
\<close>

record 't replay =
  started :: "flow \<Rightarrow> 't option"
  finished :: "flow \<Rightarrow> 't option"

text \<open>A flow has started, or has finished, by a given time.\<close>

definition begun_by :: "('t::linorder) replay \<Rightarrow> flow \<Rightarrow> 't \<Rightarrow> bool" where
  "begun_by T x now = (case started T x of None \<Rightarrow> False | Some b \<Rightarrow> b \<le> now)"

definition done_by :: "('t::linorder) replay \<Rightarrow> flow \<Rightarrow> 't \<Rightarrow> bool" where
  "done_by T x now = (case finished T x of None \<Rightarrow> False | Some e \<Rightarrow> e \<le> now)"

text \<open>
  Modelled from the spec: a replay respects a schedule when a flow that started on a
  trigger started no earlier than a flow attaching that trigger finished, and a flow that
  finished had started by then.
\<close>

definition replays :: "('t::linorder) replay \<Rightarrow> flow list \<Rightarrow> bool" where
  "replays T fs \<longleftrightarrow>
     (\<forall>y \<in> set fs.
        case started T y of
          None \<Rightarrow> True
        | Some b \<Rightarrow>
            (case start y of
               Trigger t \<Rightarrow> \<exists>x \<in> set fs. send_done_trigger x = Some t \<and> done_by T x b
             | _ \<Rightarrow> True)) \<and>
     (\<forall>x \<in> set fs. case finished T x of None \<Rightarrow> True | Some e \<Rightarrow> begun_by T x e)"

text \<open>
  Chunk \<open>c\<close> of iteration \<open>r\<close> is admitted at a given time when one of its uplink flows
  has started and the completion trigger of the chunk, the one that its last downlink
  flow attaches, has not fired yet.
\<close>

definition admitted :: "('t::linorder) replay \<Rightarrow> flow list \<Rightarrow> int \<Rightarrow> int \<Rightarrow> 't \<Rightarrow> bool" where
  "admitted T fs r c now \<longleftrightarrow>
     (\<exists>u \<in> set (chunk_flows UP r c fs). begun_by T u now) \<and>
     \<not> (chunk_flows DOWN r c fs \<noteq> [] \<and> done_by T (last (chunk_flows DOWN r c fs)) now)"

text \<open>
  A replay for the places where a run is evaluated: flow \<open>i\<close> is in transit from time
  \<open>i - 1\<close> to time \<open>i\<close>.
\<close>

definition demo_replay :: "nat replay" where
  "demo_replay = \<lparr>started = (\<lambda>x. Some (nat (fl_id x) - 1)), finished = (\<lambda>x. Some (nat (fl_id x)))\<rparr>"

text \<open>
  A replay in which the flow with id 3 takes long: flows \<open>2 i + 1\<close> and \<open>2 i + 2\<close> start at
  time \<open>i\<close>, and every flow but the third finishes one time unit after it started.
\<close>

definition slow_replay :: "nat replay" where
  "slow_replay =
     \<lparr>started = (\<lambda>x. Some (nat ((fl_id x - 1) div 2))),
      finished = (\<lambda>x. Some (if fl_id x = 3 then 10 else nat ((fl_id x - 1) div 2) + 1))\<rparr>"

section \<open>Invariants of the generators\<close>

text \<open>
  What is kept true of every flow line while a script runs: a flow that waits for a
  trigger and attaches one waits for the smaller id; the ids a flow names stay below, or
  start from, a bound.
\<close>

definition gate_lt_done :: "flow \<Rightarrow> bool" where
  "gate_lt_done f \<longleftrightarrow>
     (\<forall>g d. start f = Trigger g \<longrightarrow> send_done_trigger f = Some d \<longrightarrow> g < d)"

definition refs_below :: "int \<Rightarrow> flow \<Rightarrow> bool" where
  "refs_below hi f \<longleftrightarrow>
     (\<forall>d. send_done_trigger f = Some d \<longrightarrow> d < hi) \<and>
     (\<forall>g. start f = Trigger g \<longrightarrow> g < hi)"

definition refs_from :: "int \<Rightarrow> flow \<Rightarrow> bool" where
  "refs_from lo f \<longleftrightarrow>
     (\<forall>d. send_done_trigger f = Some d \<longrightarrow> lo \<le> d) \<and>
     (\<forall>g. start f = Trigger g \<longrightarrow> lo \<le> g)"

text \<open>Tree: the counter is always one past the last id a flow names.\<close>

definition tree_inv :: "st \<Rightarrow> bool" where
  "tree_inv s \<longleftrightarrow>
     1 \<le> trig_id s \<and> trigger_defs (out s) = [] \<and>
     (\<forall>f \<in> set (flows_of (out s)). gate_lt_done f \<and> refs_below (trig_id s) f)"

text \<open>
  Supernode: every id a flow names is at least 2, and the variables that hold a trigger
  id hold one that has been issued.
\<close>

definition issued :: "int \<Rightarrow> int option \<Rightarrow> bool" where
  "issued hi v \<longleftrightarrow> (\<forall>t. v = Some t \<longrightarrow> 2 \<le> t \<and> t \<le> hi)"

definition sn_inv :: "sn_st \<Rightarrow> bool" where
  "sn_inv s \<longleftrightarrow>
     1 \<le> trig_id s \<and> trigger_defs (out s) = [] \<and>
     (\<forall>f \<in> set (flows_of (out s)). gate_lt_done f \<and> refs_from 2 f) \<and>
     issued (trig_id s) (next_iteration_trigger s) \<and>
     issued (trig_id s) (phase2_trigger s) \<and>
     (\<forall>t \<in> set (phase1_send_done_triggers s). 2 \<le> t \<and> t \<le> trig_id s)"

text \<open>Ring: a recorded reduction-done trigger is below the counter.\<close>

definition ring_inv :: "ring_st \<Rightarrow> bool" where
  "ring_inv s \<longleftrightarrow>
     (\<forall>f \<in> set (flows_of (out s)). gate_lt_done f) \<and>
     (\<forall>t \<in> set (group_end_triggers s). t < trig_id s) \<and>
     (\<forall>t \<in> set (leader_triggers s). t \<le> trig_id s)"

text \<open>
  IncHierarchical.  \<open>window_gated\<close>: an uplink flow of chunk \<open>c \<ge> window\<close> waits for the
  completion trigger of the last downlink flow of chunk \<open>c - window\<close> of its own
  iteration, when that chunk has a downlink flow.  \<open>fan_out\<close>: a downlink flow waits for
  the completion trigger of the last uplink flow of its own chunk.
\<close>

definition window_gated :: "int \<Rightarrow> flow list \<Rightarrow> bool" where
  "window_gated window fs \<longleftrightarrow>
     (\<forall>u \<in> set fs. \<forall>m. sem u = Some m \<longrightarrow> agg_dir m = UP \<longrightarrow> window \<le> cid m \<longrightarrow>
        chunk_flows DOWN (rid m) (cid m - window) fs \<noteq> [] \<longrightarrow>
        (\<exists>t. send_done_trigger (last (chunk_flows DOWN (rid m) (cid m - window) fs)) = Some t
             \<and> start u = Trigger t))"

definition fan_out :: "flow list \<Rightarrow> bool" where
  "fan_out fs \<longleftrightarrow>
     (\<forall>d \<in> set fs. \<forall>m. sem d = Some m \<longrightarrow> agg_dir m = DOWN \<longrightarrow>
        chunk_flows UP (rid m) (cid m) fs \<noteq> [] \<and>
        (\<exists>t. send_done_trigger (last (chunk_flows UP (rid m) (cid m) fs)) = Some t
             \<and> start d = Trigger t))"

text \<open>Every flow written so far belongs to an earlier iteration, or to an earlier chunk
  of iteration \<open>r\<close>.\<close>

definition written_before :: "int \<Rightarrow> int \<Rightarrow> flow list \<Rightarrow> bool" where
  "written_before r c fs \<longleftrightarrow>
     (\<forall>f \<in> set fs. \<exists>m. sem f = Some m \<and> (rid m < r \<or> rid m = r \<and> cid m < c))"

text \<open>
  IncHierarchical: every id a flow names is at least 2 and was issued before the id the
  flow attaches; \<open>- 1\<close> marks a chunk that has not completed yet.
\<close>

definition inc_inv :: "inc_st \<Rightarrow> bool" where
  "inc_inv s \<longleftrightarrow>
     1 \<le> trig_id s \<and> trigger_defs (out s) = [] \<and>
     (\<forall>f \<in> set (flows_of (out s)).
        gate_lt_done f \<and> refs_from 2 f \<and> refs_below (trig_id s + 1) f) \<and>
     issued (trig_id s) (iteration_start_trigger s) \<and>
     (\<forall>t \<in> set (last_downlink_trigger s). t = - 1 \<or> 2 \<le> t \<and> t \<le> trig_id s)"

text \<open>
  Every chunk before the chunk of a written flow, in the same iteration, has a downlink
  flow.
\<close>

definition chunks_complete :: "flow list \<Rightarrow> bool" where
  "chunks_complete fs \<longleftrightarrow>
     (\<forall>f \<in> set fs. \<forall>m. sem f = Some m \<longrightarrow>
        (\<forall>c'. 0 \<le> c' \<and> c' < cid m \<longrightarrow> chunk_flows DOWN (rid m) c' fs \<noteq> []))"

text \<open>Inside iteration \<open>r\<close>, before chunk \<open>c\<close>.\<close>

definition inc_chunk_inv :: "int \<Rightarrow> int \<Rightarrow> int \<Rightarrow> int \<Rightarrow> int \<Rightarrow> inc_st \<Rightarrow> bool" where
  "inc_chunk_inv nodes chunks window r c s \<longleftrightarrow>
     inc_inv s \<and> length (last_downlink_trigger s) = nat chunks \<and>
     written_before r c (flows_of (out s)) \<and>
     (\<forall>c'. 0 \<le> c' \<and> c' < c \<longrightarrow>
        2 \<le> last_downlink_trigger s ! nat c' \<and>
        (chunk_flows DOWN r c' (flows_of (out s)) \<noteq> [] \<longrightarrow>
           send_done_trigger (last (chunk_flows DOWN r c' (flows_of (out s))))
             = Some (last_downlink_trigger s ! nat c'))) \<and>
     (1 \<le> window \<longrightarrow> window_gated window (flows_of (out s))) \<and>
     fan_out (flows_of (out s)) \<and>
     (2 \<le> nodes \<longrightarrow>
        chunks_complete (flows_of (out s)) \<and>
        (\<forall>c'. 0 \<le> c' \<and> c' < c \<longrightarrow> chunk_flows DOWN r c' (flows_of (out s)) \<noteq> []))"

text \<open>Before iteration \<open>it\<close> (whose flows carry \<open>rid = it + 1\<close>).\<close>

definition inc_iter_inv :: "int \<Rightarrow> int \<Rightarrow> int \<Rightarrow> int \<Rightarrow> inc_st \<Rightarrow> bool" where
  "inc_iter_inv nodes chunks window it s \<longleftrightarrow>
     inc_inv s \<and> length (last_downlink_trigger s) = nat chunks \<and>
     written_before (it + 1) 0 (flows_of (out s)) \<and>
     (1 \<le> window \<longrightarrow> window_gated window (flows_of (out s))) \<and>
     fan_out (flows_of (out s)) \<and>
     (2 \<le> nodes \<longrightarrow> chunks_complete (flows_of (out s)))"

text \<open>
  IncHierarchical: every flow line attaches a completion trigger that the counter has
  issued, and no two flow lines attach the same one.
\<close>

definition own_triggers :: "inc_st \<Rightarrow> bool" where
  "own_triggers s \<longleftrightarrow>
     (\<forall>x \<in> set (flows_of (out s)). \<exists>t. send_done_trigger x = Some t \<and> t \<le> trig_id s) \<and>
     distinct (map send_done_trigger (flows_of (out s)))"

text \<open>
  The running count of connections is the number of flow lines written, and the body of
  the file holds no header line and no trigger definition before the script writes them.
\<close>

definition conn_inv :: "'a st_scheme \<Rightarrow> bool" where
  "conn_inv s \<longleftrightarrow>
     connections s = int (length (flows_of (out s))) \<and>
     connections_header (out s) = [] \<and> triggers_header (out s) = [] \<and>
     trigger_defs (out s) = []"

text \<open>
  Structural closure of a file: every trigger id that a flow line attaches or waits for
  is declared exactly once.  While a script runs: every id a flow names has been issued.
\<close>

definition closed_refs :: "line list \<Rightarrow> bool" where
  "closed_refs ls \<longleftrightarrow>
     (\<forall>f \<in> set (flows_of ls).
        (\<forall>d. send_done_trigger f = Some d \<longrightarrow> count_list (trigger_defs ls) d = 1) \<and>
        (\<forall>g. start f = Trigger g \<longrightarrow> count_list (trigger_defs ls) g = 1))"

definition refs_issued :: "'a st_scheme \<Rightarrow> bool" where
  "refs_issued s \<longleftrightarrow> (\<forall>f \<in> set (flows_of (out s)). refs_below (trig_id s + 1) f)"

section \<open>Evaluating runs\<close>

lemma upto_small:
  "[0..(0::int)] = [0]" "[0..(1::int)] = [0, 1]" "[1..(1::int)] = [1]"
  "[0..numeral n] = 0 # [1..numeral n]" "[1..numeral n] = 1 # [2..numeral n]"
  by (simp_all add: upto_rec1)

lemmas tree_defs = gen_allreduce_tree_def tree_parent_child_def tree_link_def
  tree_upward_def tree_up_def tree_init_def tree_downward_def tree_down_parent_def
  tree_down_child_def trigger_section_def print_line_def

lemmas ring_defs = gen_allreduce_ring_def ring_run_def ring_phase1_def ring_phase2_def
  ring_phase3_def ring_reduce_group_def ring_reduce_step_def ring_leader_def
  ring_bcast_group_def ring_bcast_step_def group_srcs_def ring_srcs_def ring_init_def
  py_index_def print_line_def trigger_section_def insert_header_def demo_random_def

lemmas inc_defs = gen_allreduce_inc_def inc_run_def inc_init_def inc_iteration_def
  inc_chunk_def record_down_trig_def inc_downlink_def ensure_upload_trig_def
  inc_uplink_def chunk_start_def chunk_to_agg_node_def start_or_trigger_str_def
  agg_nodes_def nodes_per_pod_def trigger_str_def py_index_def print_line_def
  trigger_section_def insert_header_def

lemmas sn_defs = gen_allreduce_supernode_def sn_run_def sn_init_def sn_iteration_def
  sn_phase1_send_def sn_phase2_send_def sn_regular_nodes_def trigger_str_def
  py_index_def print_line_def trigger_section_def insert_header_def demo_random_def

lemma tree_4_2_file:
  "gen_allreduce_tree R 4 2 flowsize randseed =
     Inr [Nodes 4,
          Connections 6,
          Triggers 6,
          Comment ''# Phase 1: Upward Reduction'',
          FlowL \<lparr>src = 3, dst = 1, fl_id = 1, start = Start0, fsize = flowsize,
           send_done_trigger = Some 1, sem = None\<rparr>,
          FlowL \<lparr>src = 2, dst = 0, fl_id = 2, start = Start0, fsize = flowsize,
           send_done_trigger = Some 2, sem = None\<rparr>,
          FlowL \<lparr>src = 1, dst = 0, fl_id = 3, start = Start0, fsize = flowsize,
           send_done_trigger = Some 3, sem = None\<rparr>,
          Comment ''# Phase 2: Downward Broadcast'',
          FlowL \<lparr>src = 0, dst = 1, fl_id = 4, start = Trigger 1, fsize = flowsize,
           send_done_trigger = Some 4, sem = None\<rparr>,
          FlowL \<lparr>src = 0, dst = 2, fl_id = 5, start = Trigger 2, fsize = flowsize,
           send_done_trigger = None, sem = None\<rparr>,
          FlowL \<lparr>src = 1, dst = 3, fl_id = 6, start = Trigger 2, fsize = flowsize,
           send_done_trigger = None, sem = None\<rparr>,
          Comment ''# Trigger Section'',
          TriggerDef 1,
          TriggerDef 2,
          TriggerDef 3,
          TriggerDef 4,
          TriggerDef 5]"
  by (simp add: tree_defs upto_small)

lemma ring_3_file:
  "gen_allreduce_ring demo_random 3 3 3 100 0 0 =
     Inr [Nodes 3,
          Connections 9,
          Triggers 6,
          FlowL \<lparr>src = 0, dst = 1, fl_id = 1, start = Start0, fsize = 100,
           send_done_trigger = Some 1, sem = None\<rparr>,
          FlowL \<lparr>src = 1, dst = 2, fl_id = 2, start = Trigger 1, fsize = 100,
           send_done_trigger = None, sem = None\<rparr>,
          FlowL \<lparr>src = 1, dst = 2, fl_id = 3, start = Start0, fsize = 100,
           send_done_trigger = Some 2, sem = None\<rparr>,
          FlowL \<lparr>src = 2, dst = 0, fl_id = 4, start = Trigger 2, fsize = 100,
           send_done_trigger = None, sem = None\<rparr>,
          FlowL \<lparr>src = 2, dst = 0, fl_id = 5, start = Start0, fsize = 100,
           send_done_trigger = Some 3, sem = None\<rparr>,
          FlowL \<lparr>src = 0, dst = 1, fl_id = 6, start = Trigger 3, fsize = 100,
           send_done_trigger = None, sem = None\<rparr>,
          FlowL \<lparr>src = 0, dst = 0, fl_id = 7, start = Trigger 3, fsize = 10,
           send_done_trigger = Some 5, sem = None\<rparr>,
          FlowL \<lparr>src = 0, dst = 1, fl_id = 8, start = Trigger 5, fsize = 100,
           send_done_trigger = Some 6, sem = None\<rparr>,
          FlowL \<lparr>src = 1, dst = 2, fl_id = 9, start = Trigger 6, fsize = 100,
           send_done_trigger = None, sem = None\<rparr>,
          TriggerDef 1,
          TriggerDef 2,
          TriggerDef 3,
          TriggerDef 4,
          TriggerDef 5,
          TriggerDef 6]"
  by (simp add: ring_defs upto_small)

lemma ring_2_file:
  "gen_allreduce_ring demo_random 2 2 2 100 0 0 =
     Inr [Nodes 2,
          Connections 4,
          Triggers 2,
          FlowL \<lparr>src = 0, dst = 1, fl_id = 1, start = Start0, fsize = 100,
           send_done_trigger = None, sem = None\<rparr>,
          FlowL \<lparr>src = 1, dst = 0, fl_id = 2, start = Start0, fsize = 100,
           send_done_trigger = None, sem = None\<rparr>,
          FlowL \<lparr>src = 0, dst = 0, fl_id = 3, start = Trigger 0, fsize = 10,
           send_done_trigger = Some 2, sem = None\<rparr>,
          FlowL \<lparr>src = 0, dst = 1, fl_id = 4, start = Trigger 2, fsize = 100,
           send_done_trigger = None, sem = None\<rparr>,
          TriggerDef 1,
          TriggerDef 2]"
  by (simp add: ring_defs upto_small)


lemma inc_3_file:
  "gen_allreduce_inc demo_random 3 2 100 1 7 1 1 0 =
     Inr [Nodes 3,
          Connections 4,
          Triggers 5,
          Blank,
          IterationComment 1,
          FlowL \<lparr>src = 1, dst = 0, fl_id = 1, start = Start0, fsize = 100,
           send_done_trigger = Some 2, sem = Some \<lparr>agg_dir = UP, fid = 7, rid = 1, cid = 0\<rparr>\<rparr>,
          FlowL \<lparr>src = 2, dst = 0, fl_id = 2, start = Start0, fsize = 100,
           send_done_trigger = Some 3, sem = Some \<lparr>agg_dir = UP, fid = 7, rid = 1, cid = 0\<rparr>\<rparr>,
          FlowL \<lparr>src = 0, dst = 1, fl_id = 3, start = Trigger 3, fsize = 100,
           send_done_trigger = Some 4, sem = Some \<lparr>agg_dir = DOWN, fid = 7, rid = 1, cid = 0\<rparr>\<rparr>,
          FlowL \<lparr>src = 0, dst = 2, fl_id = 4, start = Trigger 3, fsize = 100,
           send_done_trigger = Some 5, sem = Some \<lparr>agg_dir = DOWN, fid = 7, rid = 1, cid = 0\<rparr>\<rparr>,
          Blank,
          Comment ''# --- TRIGGERS ---'',
          TriggerDef 1,
          TriggerDef 2,
          TriggerDef 3,
          TriggerDef 4,
          TriggerDef 5]"
  by (simp add: inc_defs upto_small)

lemma inc_window0_file:
  "gen_allreduce_inc demo_random 2 2 100 1 7 1 0 0 =
     Inr [Nodes 2,
          Connections 2,
          Triggers 3,
          Blank,
          IterationComment 1,
          FlowL \<lparr>src = 1, dst = 0, fl_id = 1, start = Start0, fsize = 100,
           send_done_trigger = Some 2, sem = Some \<lparr>agg_dir = UP, fid = 7, rid = 1, cid = 0\<rparr>\<rparr>,
          FlowL \<lparr>src = 0, dst = 1, fl_id = 2, start = Trigger 2, fsize = 100,
           send_done_trigger = Some 3, sem = Some \<lparr>agg_dir = DOWN, fid = 7, rid = 1, cid = 0\<rparr>\<rparr>,
          Blank,
          Comment ''# --- TRIGGERS ---'',
          TriggerDef 1,
          TriggerDef 2,
          TriggerDef 3]"
  by (simp add: inc_defs upto_small)

lemma sn_3_file:
  "gen_allreduce_supernode demo_random 3 100 2 0 =
     Inr [Nodes 3,
          Connections 8,
          Triggers 8,
          FlowL \<lparr>src = 0, dst = 2, fl_id = 1, start = Start0, fsize = 100,
           send_done_trigger = Some 2, sem = None\<rparr>,
          FlowL \<lparr>src = 1, dst = 2, fl_id = 2, start = Start0, fsize = 100,
           send_done_trigger = Some 3, sem = None\<rparr>,
          FlowL \<lparr>src = 2, dst = 0, fl_id = 3, start = Trigger 3, fsize = 100,
           send_done_trigger = Some 4, sem = None\<rparr>,
          FlowL \<lparr>src = 2, dst = 1, fl_id = 4, start = Trigger 4, fsize = 100,
           send_done_trigger = Some 5, sem = None\<rparr>,
          FlowL \<lparr>src = 0, dst = 2, fl_id = 5, start = Trigger 5, fsize = 100,
           send_done_trigger = Some 6, sem = None\<rparr>,
          FlowL \<lparr>src = 1, dst = 2, fl_id = 6, start = Trigger 5, fsize = 100,
           send_done_trigger = Some 7, sem = None\<rparr>,
          FlowL \<lparr>src = 2, dst = 0, fl_id = 7, start = Trigger 7, fsize = 100,
           send_done_trigger = Some 8, sem = None\<rparr>,
          FlowL \<lparr>src = 2, dst = 1, fl_id = 8, start = Trigger 8, fsize = 100,
           send_done_trigger = None, sem = None\<rparr>,
          TriggerDef 1,
          TriggerDef 2,
          TriggerDef 3,
          TriggerDef 4,
          TriggerDef 5,
          TriggerDef 6,
          TriggerDef 7,
          TriggerDef 8]"
  by (simp add: sn_defs upto_small enumerate_eq_zip)

section \<open>Tree scenario\<close>

text \<open>
  C9.  The tree generator with \<open>nodes = 4\<close> and \<open>branch_factor = 2\<close>, for every flow
  size and seed: the parent map is \<open>{1:0, 2:0, 3:1}\<close>; the upward phase writes exactly
  the flows \<open>3->1\<close>, \<open>2->0\<close>, \<open>1->0\<close>, each with \<^verbatim>\<open>start 0\<close>; the file holds, after
  the downward-phase comment, exactly the flows \<open>0->1\<close>, \<open>0->2\<close>, \<open>1->3\<close>; and there are
  six flow lines in all.
\<close>

theorem tree_scenario_nodes4_branch2:
  "tree_parent_child 4 2 =
     Inr ([0 \<mapsto> [1, 2], 1 \<mapsto> [3], 2 \<mapsto> [], 3 \<mapsto> []], [1 \<mapsto> 0, 2 \<mapsto> 0, 3 \<mapsto> 1])
   \<and> flows_after (tree_upward [1 \<mapsto> 0, 2 \<mapsto> 0, 3 \<mapsto> 1] 4 flowsize (tree_init 4)) =
     [\<lparr>src = 3, dst = 1, fl_id = 1, start = Start0, fsize = flowsize,
           send_done_trigger = Some 1, sem = None\<rparr>,
      \<lparr>src = 2, dst = 0, fl_id = 2, start = Start0, fsize = flowsize,
           send_done_trigger = Some 2, sem = None\<rparr>,
      \<lparr>src = 1, dst = 0, fl_id = 3, start = Start0, fsize = flowsize,
           send_done_trigger = Some 3, sem = None\<rparr>]
   \<and> gen_allreduce_tree R 4 2 flowsize randseed =
     Inr [Nodes 4,
          Connections 6,
          Triggers 6,
          Comment ''# Phase 1: Upward Reduction'',
          FlowL \<lparr>src = 3, dst = 1, fl_id = 1, start = Start0, fsize = flowsize,
           send_done_trigger = Some 1, sem = None\<rparr>,
          FlowL \<lparr>src = 2, dst = 0, fl_id = 2, start = Start0, fsize = flowsize,
           send_done_trigger = Some 2, sem = None\<rparr>,
          FlowL \<lparr>src = 1, dst = 0, fl_id = 3, start = Start0, fsize = flowsize,
           send_done_trigger = Some 3, sem = None\<rparr>,
          Comment ''# Phase 2: Downward Broadcast'',
          FlowL \<lparr>src = 0, dst = 1, fl_id = 4, start = Trigger 1, fsize = flowsize,
           send_done_trigger = Some 4, sem = None\<rparr>,
          FlowL \<lparr>src = 0, dst = 2, fl_id = 5, start = Trigger 2, fsize = flowsize,
           send_done_trigger = None, sem = None\<rparr>,
          FlowL \<lparr>src = 1, dst = 3, fl_id = 6, start = Trigger 2, fsize = flowsize,
           send_done_trigger = None, sem = None\<rparr>,
          Comment ''# Trigger Section'',
          TriggerDef 1,
          TriggerDef 2,
          TriggerDef 3,
          TriggerDef 4,
          TriggerDef 5]
   \<and> length (flows_of (lines_of (gen_allreduce_tree R 4 2 flowsize randseed))) = 6"
proof -
  have maps: "tree_parent_child 4 2 =
      Inr ([0 \<mapsto> [1, 2], 1 \<mapsto> [3], 2 \<mapsto> [], 3 \<mapsto> []], [1 \<mapsto> 0, 2 \<mapsto> 0, 3 \<mapsto> 1])"
    by (auto simp add: tree_parent_child_def tree_link_def upto_small fun_eq_iff)
  have up: "flows_after (tree_upward [1 \<mapsto> 0, 2 \<mapsto> 0, 3 \<mapsto> 1] 4 flowsize (tree_init 4)) =
     [\<lparr>src = 3, dst = 1, fl_id = 1, start = Start0, fsize = flowsize,
           send_done_trigger = Some 1, sem = None\<rparr>,
      \<lparr>src = 2, dst = 0, fl_id = 2, start = Start0, fsize = flowsize,
           send_done_trigger = Some 2, sem = None\<rparr>,
      \<lparr>src = 1, dst = 0, fl_id = 3, start = Start0, fsize = flowsize,
           send_done_trigger = Some 3, sem = None\<rparr>]"
    by (simp add: flows_after_def tree_upward_def tree_up_def tree_init_def print_line_def
        upto_small)
  have "length (flows_of (lines_of (gen_allreduce_tree R 4 2 flowsize randseed))) = 6"
    by (simp add: tree_4_2_file lines_of_def)
  with maps up tree_4_2_file [of R flowsize randseed] show ?thesis by blast
qed

section \<open>Header counts\<close>

text \<open>
  C4.  The tree script prints \<^verbatim>\<open>Triggers (nodes - 1) * 2\<close> before it generates anything.
  With \<open>nodes = 4\<close> and \<open>branch_factor = 2\<close> the header announces six triggers and
  six connections; the file holds six flow lines but only five trigger definitions.
\<close>

theorem tree_triggers_header_mismatch:
  "triggers_header (lines_of (gen_allreduce_tree R 4 2 flowsize randseed)) = [6]
   \<and> length (trigger_defs (lines_of (gen_allreduce_tree R 4 2 flowsize randseed))) = 5
   \<and> connections_header (lines_of (gen_allreduce_tree R 4 2 flowsize randseed)) = [6]
   \<and> length (flows_of (lines_of (gen_allreduce_tree R 4 2 flowsize randseed))) = 6"
  by (simp add: tree_4_2_file lines_of_def)

section \<open>The reduction-done trigger of a ring\<close>

text \<open>
  C5.  One ring of three nodes (\<open>nodes = conns = groupsize = 3\<close>, unshuffled order).  The
  last intra-ring reduction flow is flow 6; it has no \<^verbatim>\<open>send_done_trigger\<close>.  The leader
  flow (flow 7, size \<open>flowsize div 10\<close>) waits for trigger 3, which is the completion
  trigger of flow 5 and the start gate of flow 6.
\<close>

theorem ring_groupsize3_leader_gate:
  "flows_of (lines_of (gen_allreduce_ring demo_random 3 3 3 100 0 0)) =
     [\<lparr>src = 0, dst = 1, fl_id = 1, start = Start0, fsize = 100,
           send_done_trigger = Some 1, sem = None\<rparr>,
      \<lparr>src = 1, dst = 2, fl_id = 2, start = Trigger 1, fsize = 100,
           send_done_trigger = None, sem = None\<rparr>,
      \<lparr>src = 1, dst = 2, fl_id = 3, start = Start0, fsize = 100,
           send_done_trigger = Some 2, sem = None\<rparr>,
      \<lparr>src = 2, dst = 0, fl_id = 4, start = Trigger 2, fsize = 100,
           send_done_trigger = None, sem = None\<rparr>,
      \<lparr>src = 2, dst = 0, fl_id = 5, start = Start0, fsize = 100,
           send_done_trigger = Some 3, sem = None\<rparr>,
      \<lparr>src = 0, dst = 1, fl_id = 6, start = Trigger 3, fsize = 100,
           send_done_trigger = None, sem = None\<rparr>,
      \<lparr>src = 0, dst = 0, fl_id = 7, start = Trigger 3, fsize = 10,
           send_done_trigger = Some 5, sem = None\<rparr>,
      \<lparr>src = 0, dst = 1, fl_id = 8, start = Trigger 5, fsize = 100,
           send_done_trigger = Some 6, sem = None\<rparr>,
      \<lparr>src = 1, dst = 2, fl_id = 9, start = Trigger 6, fsize = 100,
           send_done_trigger = None, sem = None\<rparr>]"
  by (simp add: ring_3_file lines_of_def)

section \<open>Declared and referenced triggers\<close>

text \<open>
  C6.  One ring of two nodes (\<open>nodes = conns = groupsize = 2\<close>, unshuffled order).  No
  reduction flow attaches or waits for a trigger, \<^verbatim>\<open>trig_id - 1\<close> is \<open>0\<close>, and the leader
  flow (the third flow line) is written with \<^verbatim>\<open>trigger 0\<close>.  The file declares the
  triggers 1 and 2 only.
\<close>

theorem ring_groupsize2_undeclared_gate:
  "flows_of (lines_of (gen_allreduce_ring demo_random 2 2 2 100 0 0)) ! 2 =
     \<lparr>src = 0, dst = 0, fl_id = 3, start = Trigger 0, fsize = 10,
           send_done_trigger = Some 2, sem = None\<rparr>
   \<and> trigger_defs (lines_of (gen_allreduce_ring demo_random 2 2 2 100 0 0)) = [1, 2]
   \<and> 0 \<notin> set (trigger_defs (lines_of (gen_allreduce_ring demo_random 2 2 2 100 0 0)))"
  by (simp add: ring_2_file lines_of_def)

section \<open>Loops and lines\<close>

lemma for_each_inv:
  assumes "for_each body xs s = Inr s'" and "P s"
    and "\<And>x t t'. x \<in> set xs \<Longrightarrow> P t \<Longrightarrow> body x t = Inr t' \<Longrightarrow> P t'"
  shows "P s'"
  using assms
proof (induction xs arbitrary: s)
  case Nil
  then show ?case by simp
next
  case (Cons x xs)
  from Cons.prems(1) obtain t where t: "body x s = Inr t" and rest: "for_each body xs t = Inr s'"
    by (auto split: sum.splits)
  have "P t" using Cons.prems(3) [of x s t] Cons.prems(2) t by simp
  then show ?case
    by (rule Cons.IH [OF rest]) (rule Cons.prems(3), simp_all)
qed

lemma fold_inv:
  assumes "P s" and "\<And>x t. x \<in> set xs \<Longrightarrow> P t \<Longrightarrow> P (f x t)"
  shows "P (fold f xs s)"
  using assms by (induction xs arbitrary: s) simp_all

text \<open>Projections of a file distribute over the lines appended to it.\<close>

lemma flows_of_append [simp]: "flows_of (xs @ ys) = flows_of xs @ flows_of ys"
  by (induction xs rule: flows_of.induct) simp_all

lemma trigger_defs_append [simp]: "trigger_defs (xs @ ys) = trigger_defs xs @ trigger_defs ys"
  by (induction xs rule: trigger_defs.induct) simp_all

lemma flows_of_map_TriggerDef: "flows_of (map TriggerDef ts) = []"
  by (induction ts) simp_all

lemma trigger_defs_map_TriggerDef: "trigger_defs (map TriggerDef ts) = ts"
  by (induction ts) simp_all

lemma flows_of_trigger_section [simp]: "flows_of (trigger_section t) = []"
  by (simp add: trigger_section_def flows_of_map_TriggerDef)

lemma trigger_defs_trigger_section [simp]: "trigger_defs (trigger_section t) = [1..t]"
  by (simp add: trigger_section_def trigger_defs_map_TriggerDef)

lemma refs_below_mono: "refs_below a f \<Longrightarrow> a \<le> b \<Longrightarrow> refs_below b f"
  by (auto simp: refs_below_def)

text \<open>
  If every flow waits for a smaller id than the one it attaches, trigger ids grow strictly
  along every path of the dependency graph, so no path returns to its start.
\<close>

lemma acyclic_gating:
  assumes "\<forall>f \<in> set fs. gate_lt_done f"
  shows "acyclic (gating fs)"
proof -
  have step: "(x, y) \<in> (gating fs)\<^sup>+ \<Longrightarrow>
      \<exists>d g. send_done_trigger x = Some d \<and> start y = Trigger g \<and> d \<le> g \<and> y \<in> set fs" for x y
  proof (induction rule: trancl_induct)
    case (base y)
    then show ?case by (auto simp: gating_def)
  next
    case (step y z)
    then obtain d g where dg: "send_done_trigger x = Some d" "start y = Trigger g" "d \<le> g" "y \<in> set fs"
      by blast
    from step.hyps(2) obtain t where t: "send_done_trigger y = Some t" "start z = Trigger t" "z \<in> set fs"
      by (auto simp: gating_def)
    from assms dg t have "g < t" by (auto simp: gate_lt_done_def)
    with dg t show ?case by auto
  qed
  show ?thesis
  proof (rule acyclicI, rule allI, rule notI)
    fix x assume "(x, x) \<in> (gating fs)\<^sup>+"
    from step [OF this] obtain d g where "send_done_trigger x = Some d" "start x = Trigger g" "d \<le> g" "x \<in> set fs"
      by blast
    with assms show False by (auto simp: gate_lt_done_def)
  qed
qed

section \<open>Tree: invariant of a run\<close>

lemma tree_up_inv: "tree_inv s \<Longrightarrow> tree_up parents flowsize i s = Inr s' \<Longrightarrow> tree_inv s'"
  by (fastforce simp: tree_inv_def tree_up_def print_line_def gate_lt_done_def refs_below_def
      split: option.splits)

lemma tree_down_child_inv:
  "2 \<le> nodes \<Longrightarrow> tree_inv s \<Longrightarrow> tree_inv (tree_down_child nodes flowsize parent cs child s)"
  by (fastforce simp: tree_inv_def tree_down_child_def print_line_def gate_lt_done_def
      refs_below_def)

lemma tree_down_parent_inv:
  "2 \<le> nodes \<Longrightarrow> tree_inv s \<Longrightarrow> tree_down_parent children nodes flowsize parent s = Inr s'
     \<Longrightarrow> tree_inv s'"
  by (auto simp: tree_down_parent_def split: option.splits intro!: fold_inv tree_down_child_inv)

lemma tree_init_inv: "tree_inv (tree_init nodes)"
  by (simp add: tree_inv_def tree_init_def)

lemma tree_print_comment_inv: "tree_inv s \<Longrightarrow> tree_inv (print_line (Comment c) s)"
  by (simp add: tree_inv_def print_line_def)

lemma tree_run_inv:
  assumes "2 \<le> nodes"
    and "tree_upward parents nodes flowsize (tree_init nodes) = Inr s1"
    and "tree_downward children nodes flowsize s1 = Inr s2"
  shows "tree_inv s2"
proof -
  have "tree_inv s1"
    using assms(2) unfolding tree_upward_def
    by (rule for_each_inv) (auto intro: tree_init_inv tree_print_comment_inv tree_up_inv)
  then have "tree_inv (print_line (Comment ''# Phase 2: Downward Broadcast'') s1)"
    by (rule tree_print_comment_inv)
  with assms(3) show ?thesis unfolding tree_downward_def
    by (rule for_each_inv) (auto intro: tree_down_parent_inv [OF assms(1)])
qed

lemma tree_small_file:
  assumes "nodes \<le> 1"
  shows "gen_allreduce_tree R nodes branch_factor flowsize randseed =
     Inr [Nodes nodes, Connections ((nodes - 1) * 2), Triggers ((nodes - 1) * 2),
          Comment ''# Phase 1: Upward Reduction'', Comment ''# Phase 2: Downward Broadcast'',
          Comment ''# Trigger Section'', TriggerDef 1]"
proof (cases "nodes = 1")
  case True
  then show ?thesis by (simp add: tree_defs upto_small)
next
  case False
  with assms have "nodes \<le> 0" by simp
  then show ?thesis by (simp add: tree_defs upto_small)
qed

lemma py_index_mem: "py_index xs i = Inr x \<Longrightarrow> x \<in> set xs"
  by (auto simp: py_index_def split: if_splits)

lemma flows_of_insert_header [simp]: "flows_of (insert_header c t ls) = flows_of ls"
proof -
  have "flows_of (take 1 ls) @ flows_of (drop 1 ls) = flows_of (take 1 ls @ drop 1 ls)"
    by (simp only: flows_of_append)
  then show ?thesis by (simp add: insert_header_def)
qed

lemma trigger_defs_insert_header [simp]:
  "trigger_defs (insert_header c t ls) = trigger_defs ls"
proof -
  have "trigger_defs (take 1 ls) @ trigger_defs (drop 1 ls) = trigger_defs (take 1 ls @ drop 1 ls)"
    by (simp only: trigger_defs_append)
  then show ?thesis by (simp add: insert_header_def)
qed

lemma last_upto: "1 \<le> n \<Longrightarrow> last [1..n] = n"
  by (simp add: upto_rec2)

lemma issued_mono: "issued a v \<Longrightarrow> a \<le> b \<Longrightarrow> issued b v"
  by (auto simp: issued_def)

lemma trigger_str_issued:
  "issued hi v \<Longrightarrow> trigger_str v = Trigger g \<Longrightarrow> 2 \<le> g \<and> g \<le> hi"
  by (auto simp: issued_def trigger_str_def split: option.splits)

section \<open>Supernode: invariant of a run\<close>

lemma sn_phase1_send_inv: "sn_inv s \<Longrightarrow> sn_inv (sn_phase1_send supernode_id flowsize iteration p s)"
  by (cases p)
     (fastforce simp: sn_inv_def sn_phase1_send_def print_line_def gate_lt_done_def refs_from_def
        issued_def trigger_str_def Let_def split: option.splits)

lemma sn_phase2_send_inv:
  "sn_inv s \<Longrightarrow> sn_inv (sn_phase2_send supernode_id flowsize iterations iteration len p s)"
  by (cases p)
     (fastforce simp: sn_inv_def sn_phase2_send_def print_line_def gate_lt_done_def refs_from_def
        issued_def trigger_str_def Let_def split: option.splits)

lemma sn_iteration_inv:
  assumes "sn_inv s"
    and "sn_iteration regular_nodes supernode_id flowsize iterations iteration s = Inr s'"
  shows "sn_inv s'"
proof -
  define s1 where "s1 = fold (sn_phase1_send supernode_id flowsize iteration)
      (List.enumerate 0 regular_nodes) (s\<lparr>phase1_send_done_triggers := []\<rparr>)"
  have "sn_inv (s\<lparr>phase1_send_done_triggers := []\<rparr>)"
    using assms(1) by (simp add: sn_inv_def)
  then have inv1: "sn_inv s1"
    unfolding s1_def by (rule fold_inv) (rule sn_phase1_send_inv)
  from assms(2) obtain t where t: "py_index (phase1_send_done_triggers s1) (- 1) = Inr t"
    and s': "s' = (fold (sn_phase2_send supernode_id flowsize iterations iteration
                      (length regular_nodes)) (List.enumerate 0 regular_nodes)
                    (s1\<lparr>phase2_trigger := Some t\<rparr>))
               \<lparr>next_iteration_trigger := phase2_trigger
                  (fold (sn_phase2_send supernode_id flowsize iterations iteration
                      (length regular_nodes)) (List.enumerate 0 regular_nodes)
                    (s1\<lparr>phase2_trigger := Some t\<rparr>))\<rparr>"
    by (auto simp: sn_iteration_def s1_def Let_def split: sum.splits)
  from py_index_mem [OF t] inv1 have "sn_inv (s1\<lparr>phase2_trigger := Some t\<rparr>)"
    by (simp add: sn_inv_def issued_def)
  then have "sn_inv (fold (sn_phase2_send supernode_id flowsize iterations iteration
                      (length regular_nodes)) (List.enumerate 0 regular_nodes)
                    (s1\<lparr>phase2_trigger := Some t\<rparr>))"
    by (rule fold_inv) (rule sn_phase2_send_inv)
  then show ?thesis unfolding s' by (simp add: sn_inv_def)
qed

lemma sn_init_inv: "sn_inv (sn_init nodes)"
  by (simp add: sn_inv_def sn_init_def issued_def)

lemma sn_run_inv: "sn_run regular_nodes nodes flowsize iterations = Inr s \<Longrightarrow> sn_inv s"
  unfolding sn_run_def
  by (erule for_each_inv [where P = sn_inv]) (rule sn_init_inv, rule sn_iteration_inv)

lemma sn_file_inv:
  assumes "gen_allreduce_supernode R nodes flowsize iterations randseed = Inr ls"
  shows "(\<forall>f \<in> set (flows_of ls). gate_lt_done f) \<and> unused_trigger 1 ls"
proof -
  from assms obtain s where run: "sn_run (sn_regular_nodes R nodes randseed) nodes flowsize iterations = Inr s"
    and ls: "ls = insert_header (connections s) (int (length (trigger_section (trig_id s))))
                    (out s @ trigger_section (trig_id s))"
    by (auto simp: gen_allreduce_supernode_def Let_def split: sum.splits)
  from sn_run_inv [OF run] show ?thesis
    unfolding ls by (fastforce simp: sn_inv_def unused_trigger_def refs_from_def)
qed


section \<open>Tree: the file\<close>

lemma tree_file_inv:
  assumes "gen_allreduce_tree R nodes branch_factor flowsize randseed = Inr ls"
  shows "(\<forall>f \<in> set (flows_of ls). gate_lt_done f) \<and> trigger_defs ls \<noteq> []
         \<and> unused_trigger (last (trigger_defs ls)) ls"
proof (cases "nodes \<le> 1")
  case True
  from tree_small_file [OF True, of R branch_factor flowsize randseed] assms
  show ?thesis by (auto simp: unused_trigger_def)
next
  case False
  then have big: "2 \<le> nodes" by simp
  from assms obtain children parents s1 s2
    where "tree_upward parents nodes flowsize (tree_init nodes) = Inr s1"
      and "tree_downward children nodes flowsize s1 = Inr s2"
      and ls: "ls = out s2 @ [Comment ''# Trigger Section''] @ trigger_section (trig_id s2)"
    by (auto simp: gen_allreduce_tree_def Let_def split: sum.splits prod.splits)
  then have inv: "tree_inv s2" using tree_run_inv [OF big] by blast
  then have defs: "trigger_defs ls = [1..trig_id s2]" and pos: "1 \<le> trig_id s2"
    by (simp_all add: ls tree_inv_def)
  from pos have ne: "[1..trig_id s2] \<noteq> []" by (simp add: upto_rec1)
  have lst: "last [1..trig_id s2] = trig_id s2" using pos by (rule last_upto)
  from inv show ?thesis
    unfolding defs lst unused_trigger_def
    using ne pos by (fastforce simp: ls tree_inv_def refs_below_def)
qed

section \<open>Ring: invariant of a run\<close>

lemma ring_reduce_step_inv:
  "ring_inv st0 \<Longrightarrow> ring_reduce_step groupsrcs groupsize flowsize s d st0 = Inr st1
     \<Longrightarrow> ring_inv st1"
  by (fastforce simp: ring_inv_def ring_reduce_step_def print_line_def gate_lt_done_def Let_def
      split: sum.splits if_splits)

lemma ring_reduce_group_inv:
  assumes "ring_inv st0"
    and "ring_reduce_group srcs groupsize flowsize locality g st0 = Inr st1"
  shows "ring_inv st1"
proof -
  from assms(2) obtain gs st where
    loops: "for_each (\<lambda>s. for_each (ring_reduce_step (if locality = 1 then sort gs else gs)
                groupsize flowsize s) [1..groupsize - 1]) [0..groupsize - 1] st0 = Inr st"
    and st1: "st1 = st\<lparr>group_end_triggers := group_end_triggers st @ [trig_id st - 1]\<rparr>"
    by (auto simp: ring_reduce_group_def Let_def split: sum.splits)
  have "ring_inv st"
    using loops assms(1)
  proof (rule for_each_inv)
    fix s t t'
    assume "ring_inv t"
      and "for_each (ring_reduce_step (if locality = 1 then sort gs else gs) groupsize
              flowsize s) [1..groupsize - 1] t = Inr t'"
    from this(2,1) show "ring_inv t'"
      by (rule for_each_inv) (rule ring_reduce_step_inv)
  qed
  then show ?thesis unfolding st1 by (simp add: ring_inv_def)
qed

lemma ring_leader_inv:
  "ring_inv st0 \<Longrightarrow> ring_leader srcs groups groupsize flowsize g st0 = Inr st1 \<Longrightarrow> ring_inv st1"
  by (fastforce simp: ring_inv_def ring_leader_def print_line_def gate_lt_done_def
      dest: py_index_mem split: sum.splits)

lemma ring_bcast_step_inv:
  assumes "ring_inv (snd p) \<and> fst p \<le> trig_id (snd p)"
    and "ring_bcast_step groupsrcs groupsize flowsize s p = Inr p'"
  shows "ring_inv (snd p') \<and> fst p' \<le> trig_id (snd p')"
  using assms
  by (cases p)
     (fastforce simp: ring_inv_def ring_bcast_step_def print_line_def gate_lt_done_def
        split: sum.splits if_splits)

lemma ring_bcast_group_inv:
  assumes "ring_inv st0"
    and "ring_bcast_group srcs groupsize flowsize g st0 = Inr st1"
  shows "ring_inv st1"
proof -
  from assms(2) obtain groupsrcs t0 t1 where
    t0: "py_index (leader_triggers st0) g = Inr t0"
    and loop: "for_each (ring_bcast_step groupsrcs groupsize flowsize) [0..(groupsize - 1) - 1]
                 (t0, st0) = Inr (t1, st1)"
    by (auto simp: ring_bcast_group_def split: sum.splits prod.splits)
  from py_index_mem [OF t0] assms(1) have "ring_inv (snd (t0, st0)) \<and> fst (t0, st0) \<le> trig_id (snd (t0, st0))"
    by (simp add: ring_inv_def)
  with loop have "ring_inv (snd (t1, st1)) \<and> fst (t1, st1) \<le> trig_id (snd (t1, st1))"
    by (rule for_each_inv) (rule ring_bcast_step_inv)
  then show ?thesis by simp
qed

lemma ring_run_inv:
  assumes "ring_run srcs nodes groups groupsize flowsize locality = Inr s"
  shows "ring_inv s"
proof -
  from assms obtain s1 s2 where
    p1: "ring_phase1 srcs groups groupsize flowsize locality (ring_init nodes) = Inr s1"
    and p2: "ring_phase2 srcs groups groupsize flowsize s1 = Inr s2"
    and p3: "ring_phase3 srcs groups groupsize flowsize s2 = Inr s"
    by (auto simp: ring_run_def split: sum.splits)
  have "ring_inv (ring_init nodes)" by (simp add: ring_inv_def ring_init_def)
  with p1 have "ring_inv s1"
    unfolding ring_phase1_def by (rule for_each_inv) (rule ring_reduce_group_inv)
  then have "ring_inv (s1\<lparr>leader_triggers := []\<rparr>)" by (simp add: ring_inv_def)
  with p2 have "ring_inv s2"
    unfolding ring_phase2_def by (rule for_each_inv) (rule ring_leader_inv)
  with p3 show ?thesis
    unfolding ring_phase3_def by (rule for_each_inv) (rule ring_bcast_group_inv)
qed

lemma ring_file_inv:
  assumes "gen_allreduce_ring R nodes conns groupsize flowsize locality randseed = Inr ls"
  shows "\<forall>f \<in> set (flows_of ls). gate_lt_done f"
proof -
  from assms obtain s where
    run: "ring_run (ring_srcs R nodes randseed) nodes (conns div groupsize) groupsize flowsize
            locality = Inr s"
    and ls: "ls = insert_header (connections s) (int (length (trigger_section (trig_id s))))
                    (out s @ trigger_section (trig_id s))"
    by (auto simp: gen_allreduce_ring_def Let_def split: sum.splits if_splits)
  from ring_run_inv [OF run] show ?thesis unfolding ls by (simp add: ring_inv_def)
qed

section \<open>IncHierarchical: what one chunk writes\<close>

text \<open>A loop over \<^verbatim>\<open>range(a, b + 1)\<close> with an invariant that depends on the loop variable.\<close>

lemma for_each_upto_inv:
  assumes "for_each body [a..b] s = Inr s'" and "P a s" and "a \<le> b + 1"
    and "\<And>i t t'. a \<le> i \<Longrightarrow> i \<le> b \<Longrightarrow> P i t \<Longrightarrow> body i t = Inr t' \<Longrightarrow> P (i + 1) t'"
  shows "P (b + 1) s'"
  using assms
proof (induction "nat (b + 1 - a)" arbitrary: a s)
  case 0
  then have "a = b + 1" by simp
  with 0 show ?case by simp
next
  case (Suc n)
  then have le: "a \<le> b" by simp
  then have split: "[a..b] = a # [a + 1..b]" by (rule upto_rec1)
  from Suc.prems(1) obtain t where t: "body a s = Inr t"
    and rest: "for_each body [a + 1..b] t = Inr s'"
    unfolding split by (auto split: sum.splits)
  have Pt: "P (a + 1) t" using Suc.prems(4) [OF _ le Suc.prems(2) t] by simp
  have n: "n = nat (b + 1 - (a + 1))" using Suc.hyps(2) by simp
  show ?case
  proof (rule Suc.hyps(1) [OF n rest Pt])
    show "a + 1 \<le> b + 1" using le by simp
  next
    fix i u u'
    assume "a + 1 \<le> i" "i \<le> b" "P i u" "body i u = Inr u'"
    then show "P (i + 1) u'" using Suc.prems(4) [of i u u'] by simp
  qed
qed


lemma inc_uplinks_summary:
  assumes "s1 = fold (inc_uplink dst_agg v flowsize f r c) hosts s"
  shows "\<exists>U. flows_of (out s1) = flows_of (out s) @ U
     \<and> trigger_defs (out s1) = trigger_defs (out s)
     \<and> (\<forall>u \<in> set U. is_chunk_flow UP r c u \<and> start u = start_or_trigger_str v
            \<and> (\<exists>d. send_done_trigger u = Some d \<and> trig_id s < d \<and> d \<le> trig_id s1))
     \<and> trig_id s \<le> trig_id s1
     \<and> (U = [] \<longrightarrow> last_upload_trig s1 = last_upload_trig s \<and> trig_id s1 = trig_id s)
     \<and> (U \<noteq> [] \<longrightarrow> last_upload_trig s1 = Some (trig_id s1)
            \<and> send_done_trigger (last U) = Some (trig_id s1))
     \<and> (U = [] \<longleftrightarrow> (\<forall>h \<in> set hosts. h = dst_agg))
     \<and> last_downlink_trigger s1 = last_downlink_trigger s
     \<and> iteration_start_trigger s1 = iteration_start_trigger s"
  using assms
proof (induction hosts arbitrary: s1 rule: rev_induct)
  case Nil
  then show ?case by simp
next
  case (snoc h hosts)
  define s0 where "s0 = fold (inc_uplink dst_agg v flowsize f r c) hosts s"
  from snoc.IH [OF s0_def] obtain U where U: "flows_of (out s0) = flows_of (out s) @ U"
     "trigger_defs (out s0) = trigger_defs (out s)"
     "\<forall>u \<in> set U. is_chunk_flow UP r c u \<and> start u = start_or_trigger_str v
            \<and> (\<exists>d. send_done_trigger u = Some d \<and> trig_id s < d \<and> d \<le> trig_id s0)"
     "trig_id s \<le> trig_id s0"
     "U = [] \<longrightarrow> last_upload_trig s0 = last_upload_trig s \<and> trig_id s0 = trig_id s"
     "U \<noteq> [] \<longrightarrow> last_upload_trig s0 = Some (trig_id s0)
         \<and> send_done_trigger (last U) = Some (trig_id s0)"
     "U = [] \<longleftrightarrow> (\<forall>h \<in> set hosts. h = dst_agg)"
     "last_downlink_trigger s0 = last_downlink_trigger s"
     "iteration_start_trigger s0 = iteration_start_trigger s"
    by blast
  have s1: "s1 = inc_uplink dst_agg v flowsize f r c h s0"
    by (simp add: snoc.prems s0_def)
  show ?case
  proof (cases "h = dst_agg")
    case True
    then have "s1 = s0" by (simp add: s1 inc_uplink_def)
    with U True show ?thesis by (intro exI [of _ U]) auto
  next
    case False
    define u where "u = \<lparr>src = h, dst = dst_agg, fl_id = id_ctr s0 + 1,
                start = start_or_trigger_str v, fsize = flowsize,
                send_done_trigger = Some (trig_id s0 + 1),
                sem = Some \<lparr>agg_dir = UP, fid = f, rid = r, cid = c\<rparr>\<rparr>"
    have s1': "s1 =
        s0\<lparr>out := out s0 @ [FlowL u], id_ctr := id_ctr s0 + 1, trig_id := trig_id s0 + 1,
              connections := connections s0 + 1, last_upload_trig := Some (trig_id s0 + 1)\<rparr>"
      using False by (simp add: s1 inc_uplink_def print_line_def u_def)
    have u: "is_chunk_flow UP r c u" "start u = start_or_trigger_str v"
        "send_done_trigger u = Some (trig_id s0 + 1)"
      by (simp_all add: u_def is_chunk_flow_def)
    show ?thesis unfolding s1'
      by (intro exI [of _ "U @ [u]"]) (use U u False in \<open>auto\<close>)
  qed
qed

lemma inc_downlinks_summary:
  assumes "s1 = fold (inc_downlink dst_agg flowsize f r c) hosts s"
  shows "\<exists>D. flows_of (out s1) = flows_of (out s) @ D
     \<and> trigger_defs (out s1) = trigger_defs (out s)
     \<and> (\<forall>d \<in> set D. is_chunk_flow DOWN r c d \<and> start d = trigger_str (last_upload_trig s)
            \<and> (\<exists>e. send_done_trigger d = Some e \<and> trig_id s < e \<and> e \<le> trig_id s1))
     \<and> trig_id s \<le> trig_id s1
     \<and> (D = [] \<longrightarrow> last_down_trig s1 = last_down_trig s \<and> trig_id s1 = trig_id s)
     \<and> (D \<noteq> [] \<longrightarrow> last_down_trig s1 = Some (trig_id s1)
            \<and> send_done_trigger (last D) = Some (trig_id s1))
     \<and> (D = [] \<longleftrightarrow> (\<forall>h \<in> set hosts. h = dst_agg))
     \<and> last_upload_trig s1 = last_upload_trig s
     \<and> last_downlink_trigger s1 = last_downlink_trigger s
     \<and> iteration_start_trigger s1 = iteration_start_trigger s"
  using assms
proof (induction hosts arbitrary: s1 rule: rev_induct)
  case Nil
  then show ?case by simp
next
  case (snoc h hosts)
  define s0 where "s0 = fold (inc_downlink dst_agg flowsize f r c) hosts s"
  from snoc.IH [OF s0_def] obtain D where D: "flows_of (out s0) = flows_of (out s) @ D"
     "trigger_defs (out s0) = trigger_defs (out s)"
     "\<forall>d \<in> set D. is_chunk_flow DOWN r c d \<and> start d = trigger_str (last_upload_trig s)
            \<and> (\<exists>e. send_done_trigger d = Some e \<and> trig_id s < e \<and> e \<le> trig_id s0)"
     "trig_id s \<le> trig_id s0"
     "D = [] \<longrightarrow> last_down_trig s0 = last_down_trig s \<and> trig_id s0 = trig_id s"
     "D \<noteq> [] \<longrightarrow> last_down_trig s0 = Some (trig_id s0)
         \<and> send_done_trigger (last D) = Some (trig_id s0)"
     "D = [] \<longleftrightarrow> (\<forall>h \<in> set hosts. h = dst_agg)"
     "last_upload_trig s0 = last_upload_trig s"
     "last_downlink_trigger s0 = last_downlink_trigger s"
     "iteration_start_trigger s0 = iteration_start_trigger s"
    by blast
  have s1: "s1 = inc_downlink dst_agg flowsize f r c h s0"
    by (simp add: snoc.prems s0_def)
  show ?case
  proof (cases "h = dst_agg")
    case True
    then have "s1 = s0" by (simp add: s1 inc_downlink_def)
    with D True show ?thesis by (intro exI [of _ D]) auto
  next
    case False
    define d where "d = \<lparr>src = dst_agg, dst = h, fl_id = id_ctr s0 + 1,
                start = trigger_str (last_upload_trig s0), fsize = flowsize,
                send_done_trigger = Some (trig_id s0 + 1),
                sem = Some \<lparr>agg_dir = DOWN, fid = f, rid = r, cid = c\<rparr>\<rparr>"
    have s1': "s1 =
        s0\<lparr>out := out s0 @ [FlowL d], id_ctr := id_ctr s0 + 1, trig_id := trig_id s0 + 1,
              connections := connections s0 + 1, last_down_trig := Some (trig_id s0 + 1)\<rparr>"
      using False by (simp add: s1 inc_downlink_def print_line_def d_def)
    have d: "is_chunk_flow DOWN r c d" "start d = trigger_str (last_upload_trig s)"
        "send_done_trigger d = Some (trig_id s0 + 1)"
      using D(8) by (simp_all add: d_def is_chunk_flow_def)
    show ?thesis unfolding s1'
      by (intro exI [of _ "D @ [d]"]) (use D d False in \<open>auto\<close>)
  qed
qed

text \<open>What one pass of the chunk loop adds to the file and to the state.\<close>

lemma inc_chunk_summary:
  assumes "inc_chunk hosts aggs flowsize f window r c s = Inr s'"
  shows "\<exists>v U D t x. chunk_start window c s = Inr v
     \<and> flows_of (out s') = flows_of (out s) @ U @ D
     \<and> trigger_defs (out s') = trigger_defs (out s)
     \<and> (\<forall>u \<in> set U. is_chunk_flow UP r c u \<and> start u = start_or_trigger_str v
            \<and> (\<exists>d. send_done_trigger u = Some d \<and> trig_id s < d \<and> d \<le> trig_id s'))
     \<and> (\<forall>d \<in> set D. is_chunk_flow DOWN r c d \<and> start d = Trigger t
            \<and> (\<exists>e. send_done_trigger d = Some e \<and> t < e \<and> e \<le> trig_id s'))
     \<and> trig_id s < t \<and> t \<le> trig_id s'
     \<and> (U \<noteq> [] \<longrightarrow> send_done_trigger (last U) = Some t)
     \<and> (U = [] \<longleftrightarrow> D = [])
     \<and> (D = [] \<longleftrightarrow> (\<forall>h \<in> set hosts. chunk_to_agg_node aggs c = Inr h))
     \<and> last_downlink_trigger s' = (last_downlink_trigger s)[nat c := x]
     \<and> trig_id s < x \<and> x \<le> trig_id s'
     \<and> (D \<noteq> [] \<longrightarrow> send_done_trigger (last D) = Some x)
     \<and> iteration_start_trigger s' = iteration_start_trigger s"
proof -
  from assms obtain v dst_agg where v: "chunk_start window c s = Inr v"
    and agg: "chunk_to_agg_node aggs c = Inr dst_agg"
    by (auto simp: inc_chunk_def split: sum.splits)
  define s0 where "s0 = s\<lparr>last_upload_trig := None\<rparr>"
  define s1 where "s1 = fold (inc_uplink dst_agg v flowsize f r c) hosts s0"
  define s2 where "s2 = ensure_upload_trig s1"
  define s2' where "s2' = s2\<lparr>last_down_trig := None\<rparr>"
  define s3 where "s3 = fold (inc_downlink dst_agg flowsize f r c) hosts s2'"
  have s': "s' = record_down_trig c s3"
    using assms v agg by (simp add: inc_chunk_def Let_def s0_def s1_def s2_def s2'_def s3_def)
  from inc_uplinks_summary [OF s1_def] obtain U where U:
     "flows_of (out s1) = flows_of (out s0) @ U"
     "trigger_defs (out s1) = trigger_defs (out s0)"
     "\<forall>u \<in> set U. is_chunk_flow UP r c u \<and> start u = start_or_trigger_str v
            \<and> (\<exists>d. send_done_trigger u = Some d \<and> trig_id s0 < d \<and> d \<le> trig_id s1)"
     "trig_id s0 \<le> trig_id s1"
     "U = [] \<longrightarrow> last_upload_trig s1 = last_upload_trig s0 \<and> trig_id s1 = trig_id s0"
     "U \<noteq> [] \<longrightarrow> last_upload_trig s1 = Some (trig_id s1)
         \<and> send_done_trigger (last U) = Some (trig_id s1)"
     "U = [] \<longleftrightarrow> (\<forall>h \<in> set hosts. h = dst_agg)"
     "last_downlink_trigger s1 = last_downlink_trigger s0"
     "iteration_start_trigger s1 = iteration_start_trigger s0"
    by blast
  obtain t where t: "last_upload_trig s2 = Some t" "trig_id s0 < t" "t \<le> trig_id s2"
      "U \<noteq> [] \<longrightarrow> send_done_trigger (last U) = Some t"
      "trig_id s1 \<le> trig_id s2" "out s2 = out s1"
      "last_downlink_trigger s2 = last_downlink_trigger s1"
      "iteration_start_trigger s2 = iteration_start_trigger s1"
  proof (cases "U = []")
    case True
    with U(5) have "last_upload_trig s1 = None" by (simp add: s0_def)
    then have "s2 = s1\<lparr>trig_id := trig_id s1 + 1, last_upload_trig := Some (trig_id s1 + 1)\<rparr>"
      by (simp add: s2_def ensure_upload_trig_def)
    with True U(4) show ?thesis by (intro that [of "trig_id s1 + 1"]) simp_all
  next
    case False
    with U(6) have l: "last_upload_trig s1 = Some (trig_id s1)"
      and d: "send_done_trigger (last U) = Some (trig_id s1)" by simp_all
    then have "s2 = s1" by (simp add: s2_def ensure_upload_trig_def)
    moreover from False U(3) have "trig_id s0 < trig_id s1"
      using last_in_set [OF False] by fastforce
    ultimately show ?thesis using l d by (intro that [of "trig_id s1"]) simp_all
  qed
  from inc_downlinks_summary [OF s3_def] obtain D where D:
     "flows_of (out s3) = flows_of (out s2') @ D"
     "trigger_defs (out s3) = trigger_defs (out s2')"
     "\<forall>d \<in> set D. is_chunk_flow DOWN r c d \<and> start d = trigger_str (last_upload_trig s2')
            \<and> (\<exists>e. send_done_trigger d = Some e \<and> trig_id s2' < e \<and> e \<le> trig_id s3)"
     "trig_id s2' \<le> trig_id s3"
     "D = [] \<longrightarrow> last_down_trig s3 = last_down_trig s2' \<and> trig_id s3 = trig_id s2'"
     "D \<noteq> [] \<longrightarrow> last_down_trig s3 = Some (trig_id s3)
         \<and> send_done_trigger (last D) = Some (trig_id s3)"
     "D = [] \<longleftrightarrow> (\<forall>h \<in> set hosts. h = dst_agg)"
     "last_upload_trig s3 = last_upload_trig s2'"
     "last_downlink_trigger s3 = last_downlink_trigger s2'"
     "iteration_start_trigger s3 = iteration_start_trigger s2'"
    by blast
  obtain x where x: "last_downlink_trigger s' = (last_downlink_trigger s3)[nat c := x]"
      "trig_id s2' < x" "x \<le> trig_id s'" "D \<noteq> [] \<longrightarrow> send_done_trigger (last D) = Some x"
      "out s' = out s3" "trig_id s3 \<le> trig_id s'"
      "iteration_start_trigger s' = iteration_start_trigger s3"
  proof (cases "D = []")
    case True
    with D(5) have "last_down_trig s3 = None" by (simp add: s2'_def)
    then have "s' = s3\<lparr>trig_id := trig_id s3 + 1, last_down_trig := Some (trig_id s3 + 1),
                 last_downlink_trigger := (last_downlink_trigger s3)[nat c := trig_id s3 + 1]\<rparr>"
      by (simp add: s' record_down_trig_def)
    with True D(4) show ?thesis by (intro that [of "trig_id s3 + 1"]) simp_all
  next
    case False
    with D(6) have l: "last_down_trig s3 = Some (trig_id s3)"
      and d: "send_done_trigger (last D) = Some (trig_id s3)" by simp_all
    then have "s' = s3\<lparr>last_downlink_trigger := (last_downlink_trigger s3)[nat c := trig_id s3]\<rparr>"
      by (simp add: s' record_down_trig_def)
    moreover from False D(3) have "trig_id s2' < trig_id s3"
      using last_in_set [OF False] by fastforce
    ultimately show ?thesis using d by (intro that [of "trig_id s3"]) simp_all
  qed
  have eq: "trig_id s0 = trig_id s" "out s0 = out s" "trig_id s2' = trig_id s2"
    "out s2' = out s2" "last_upload_trig s2' = last_upload_trig s2"
    "last_downlink_trigger s2' = last_downlink_trigger s2"
    "iteration_start_trigger s2' = iteration_start_trigger s2"
    "last_downlink_trigger s0 = last_downlink_trigger s"
    "iteration_start_trigger s0 = iteration_start_trigger s"
    by (simp_all add: s0_def s2'_def)
  have mono: "trig_id s1 \<le> trig_id s'" "trig_id s3 \<le> trig_id s'" "trig_id s2 \<le> trig_id s3"
    using t(5) D(4) x(6) eq(3) by simp_all
  have c1: "flows_of (out s') = flows_of (out s) @ U @ D"
    by (simp add: x(5) D(1) eq(4) t(6) U(1) eq(2))
  have c2: "trigger_defs (out s') = trigger_defs (out s)"
    by (simp add: x(5) D(2) eq(4) t(6) U(2) eq(2))
  have c3: "\<forall>u \<in> set U. is_chunk_flow UP r c u \<and> start u = start_or_trigger_str v
            \<and> (\<exists>d. send_done_trigger u = Some d \<and> trig_id s < d \<and> d \<le> trig_id s')"
  proof
    fix u assume "u \<in> set U"
    with U(3) obtain d where "is_chunk_flow UP r c u" "start u = start_or_trigger_str v"
      "send_done_trigger u = Some d" "trig_id s0 < d" "d \<le> trig_id s1" by blast
    with mono(1) eq(1) show "is_chunk_flow UP r c u \<and> start u = start_or_trigger_str v
            \<and> (\<exists>d. send_done_trigger u = Some d \<and> trig_id s < d \<and> d \<le> trig_id s')"
      by simp
  qed
  have c4: "\<forall>d \<in> set D. is_chunk_flow DOWN r c d \<and> start d = Trigger t
            \<and> (\<exists>e. send_done_trigger d = Some e \<and> t < e \<and> e \<le> trig_id s')"
  proof
    fix d assume "d \<in> set D"
    with D(3) obtain e where "is_chunk_flow DOWN r c d"
      "start d = trigger_str (last_upload_trig s2')"
      "send_done_trigger d = Some e" "trig_id s2' < e" "e \<le> trig_id s3" by blast
    with mono(2) eq(3,5) t(1,3) show "is_chunk_flow DOWN r c d \<and> start d = Trigger t
            \<and> (\<exists>e. send_done_trigger d = Some e \<and> t < e \<and> e \<le> trig_id s')"
      by (simp add: trigger_str_def)
  qed
  have c5: "trig_id s < t" using t(2) eq(1) by simp
  have c6: "t \<le> trig_id s'" using t(3) mono by simp
  have c7: "U \<noteq> [] \<longrightarrow> send_done_trigger (last U) = Some t" by (rule t(4))
  have c8: "(U = []) = (D = [])" using U(7) D(7) by simp
  have c9: "(D = []) = (\<forall>h \<in> set hosts. chunk_to_agg_node aggs c = Inr h)"
    using D(7) agg by auto
  have c10: "last_downlink_trigger s' = (last_downlink_trigger s)[nat c := x]"
    by (simp add: x(1) D(9) eq(6) t(7) U(8) eq(8))
  have c11: "trig_id s < x" using x(2) eq(1,3) t(5) U(4) by simp
  have c12: "x \<le> trig_id s'" by (rule x(3))
  have c13: "D \<noteq> [] \<longrightarrow> send_done_trigger (last D) = Some x" by (rule x(4))
  have c14: "iteration_start_trigger s' = iteration_start_trigger s"
    by (simp add: x(7) D(10) eq(7) t(8) U(9) eq(9))
  show ?thesis
    apply (rule exI [of _ v], rule exI [of _ U], rule exI [of _ D], rule exI [of _ t],
        rule exI [of _ x])
    using v c1 c2 c3 c4 c5 c6 c7 c8 c9 c10 c11 c12 c13 c14 by (intro conjI) assumption+
qed

section \<open>IncHierarchical: flows of a chunk in a growing file\<close>

lemma is_chunk_flow_iff:
  "is_chunk_flow dir r c f \<longleftrightarrow> (\<exists>m. sem f = Some m \<and> agg_dir m = dir \<and> rid m = r \<and> cid m = c)"
  by (cases "sem f") (simp_all add: is_chunk_flow_def)

lemma is_chunk_flow_unique:
  "is_chunk_flow dir r c f \<Longrightarrow> is_chunk_flow dir' r' c' f \<Longrightarrow> dir' = dir \<and> r' = r \<and> c' = c"
  by (cases "sem f") (simp_all add: is_chunk_flow_def)

lemma chunk_flows_all:
  assumes "\<forall>f \<in> set fs. is_chunk_flow dir r c f"
  shows "chunk_flows dir' r' c' fs = (if dir' = dir \<and> r' = r \<and> c' = c then fs else [])"
proof (cases "dir' = dir \<and> r' = r \<and> c' = c")
  case True
  with assms have "filter (is_chunk_flow dir' r' c') fs = fs"
    by (simp add: filter_id_conv)
  with True show ?thesis by (simp add: chunk_flows_def)
next
  case False
  have "\<forall>f \<in> set fs. \<not> is_chunk_flow dir' r' c' f"
  proof
    fix f assume "f \<in> set fs"
    with assms have "is_chunk_flow dir r c f" by simp
    with False show "\<not> is_chunk_flow dir' r' c' f"
      using is_chunk_flow_unique by blast
  qed
  then have "filter (is_chunk_flow dir' r' c') fs = []"
    by (simp add: filter_empty_conv)
  then show ?thesis by (simp only: chunk_flows_def False if_False)
qed

lemma written_beforeD:
  "written_before r c fs \<Longrightarrow> f \<in> set fs \<Longrightarrow> sem f = Some m
     \<Longrightarrow> rid m < r \<or> rid m = r \<and> cid m < c"
  by (auto simp: written_before_def)

lemma chunk_flows_not_written:
  assumes "written_before r c fs"
  shows "chunk_flows dir r c fs = []"
proof -
  have "\<forall>f \<in> set fs. \<not> is_chunk_flow dir r c f"
  proof (intro ballI notI)
    fix f assume f: "f \<in> set fs" and "is_chunk_flow dir r c f"
    then obtain m where "sem f = Some m" "rid m = r" "cid m = c"
      unfolding is_chunk_flow_iff by blast
    with written_beforeD [OF assms f] show False by auto
  qed
  then show ?thesis by (simp add: chunk_flows_def filter_empty_conv)
qed

lemma chunk_flows_extend:
  assumes "written_before r c fs"
    and "\<forall>u \<in> set U. is_chunk_flow UP r c u"
    and "\<forall>d \<in> set D. is_chunk_flow DOWN r c d"
  shows "chunk_flows dir r' c' (fs @ U @ D) =
     (if r' = r \<and> c' = c then (if dir = UP then U else D) else chunk_flows dir r' c' fs)"
proof -
  have split: "chunk_flows dir r' c' (fs @ U @ D)
      = chunk_flows dir r' c' fs @ chunk_flows dir r' c' U @ chunk_flows dir r' c' D"
    by (simp add: chunk_flows_def)
  have U: "chunk_flows dir r' c' U = (if dir = UP \<and> r' = r \<and> c' = c then U else [])"
    by (rule chunk_flows_all [OF assms(2)])
  have D: "chunk_flows dir r' c' D = (if dir = DOWN \<and> r' = r \<and> c' = c then D else [])"
    by (rule chunk_flows_all [OF assms(3)])
  show ?thesis
  proof (cases "r' = r \<and> c' = c")
    case True
    then have "chunk_flows dir r' c' fs = []"
      using chunk_flows_not_written [OF assms(1), of dir] by simp
    with True show ?thesis unfolding split U D by (cases dir) simp_all
  next
    case False
    then have "\<not> (dir = UP \<and> r' = r \<and> c' = c)" "\<not> (dir = DOWN \<and> r' = r \<and> c' = c)"
      by simp_all
    then show ?thesis by (simp only: split U D False if_False append_Nil2)
  qed
qed

lemma written_before_extend:
  assumes "written_before r c fs"
    and "\<forall>u \<in> set U. is_chunk_flow UP r c u"
    and "\<forall>d \<in> set D. is_chunk_flow DOWN r c d"
  shows "written_before r (c + 1) (fs @ U @ D)"
  unfolding written_before_def
proof
  fix f assume "f \<in> set (fs @ U @ D)"
  then consider "f \<in> set fs" | "f \<in> set U" | "f \<in> set D" by auto
  then show "\<exists>m. sem f = Some m \<and> (rid m < r \<or> rid m = r \<and> cid m < c + 1)"
  proof cases
    case 1
    with assms(1) obtain m where "sem f = Some m" "rid m < r \<or> rid m = r \<and> cid m < c"
      unfolding written_before_def by blast
    then show ?thesis by auto
  next
    case 2
    with assms(2) show ?thesis by (auto simp: is_chunk_flow_iff)
  next
    case 3
    with assms(3) show ?thesis by (auto simp: is_chunk_flow_iff)
  qed
qed

lemma fan_out_extend:
  assumes "fan_out fs" and wb: "written_before r c fs"
    and U: "\<forall>u \<in> set U. is_chunk_flow UP r c u"
    and D: "\<forall>d \<in> set D. is_chunk_flow DOWN r c d"
    and ne: "D \<noteq> [] \<longrightarrow> U \<noteq> []"
    and gate: "\<forall>d \<in> set D. \<exists>t. send_done_trigger (last U) = Some t \<and> start d = Trigger t"
  shows "fan_out (fs @ U @ D)"
  unfolding fan_out_def
proof (intro ballI allI impI)
  fix d m
  assume d: "d \<in> set (fs @ U @ D)" and m: "sem d = Some m" "agg_dir m = DOWN"
  note ext = chunk_flows_extend [OF wb U D]
  from d consider "d \<in> set fs" | "d \<in> set U" | "d \<in> set D" by auto
  then show "chunk_flows UP (rid m) (cid m) (fs @ U @ D) \<noteq> [] \<and>
       (\<exists>t. send_done_trigger (last (chunk_flows UP (rid m) (cid m) (fs @ U @ D))) = Some t \<and>
            start d = Trigger t)"
  proof cases
    case 1
    from written_beforeD [OF wb 1 m(1)] have "\<not> (rid m = r \<and> cid m = c)" by auto
    then have "chunk_flows UP (rid m) (cid m) (fs @ U @ D) = chunk_flows UP (rid m) (cid m) fs"
      by (auto simp: ext)
    with assms(1) 1 m show ?thesis unfolding fan_out_def by simp
  next
    case 2
    with U m show ?thesis by (auto simp: is_chunk_flow_iff)
  next
    case 3
    with D m have "rid m = r" "cid m = c" by (auto simp: is_chunk_flow_iff)
    then have "chunk_flows UP (rid m) (cid m) (fs @ U @ D) = U"
      by (simp add: ext)
    moreover from 3 have "D \<noteq> []" by auto
    ultimately show ?thesis using ne gate 3 by simp
  qed
qed

lemma chunks_complete_extend:
  assumes cc: "chunks_complete fs"
    and before: "\<forall>c'. 0 \<le> c' \<and> c' < c \<longrightarrow> chunk_flows DOWN r c' fs \<noteq> []"
    and wb: "written_before r c fs"
    and U: "\<forall>u \<in> set U. is_chunk_flow UP r c u"
    and D: "\<forall>d \<in> set D. is_chunk_flow DOWN r c d"
  shows "chunks_complete (fs @ U @ D)"
  unfolding chunks_complete_def
proof (intro ballI allI impI)
  fix g m c'
  assume g: "g \<in> set (fs @ U @ D)" and m: "sem g = Some m" and c': "0 \<le> c' \<and> c' < cid m"
  have grow: "chunk_flows DOWN r' c'' fs \<noteq> [] \<Longrightarrow> chunk_flows DOWN r' c'' (fs @ U @ D) \<noteq> []"
    for r' c'' by (simp add: chunk_flows_def)
  from g consider "g \<in> set fs" | "g \<in> set U" | "g \<in> set D" by auto
  then show "chunk_flows DOWN (rid m) c' (fs @ U @ D) \<noteq> []"
  proof cases
    case 1
    with cc m c' have "chunk_flows DOWN (rid m) c' fs \<noteq> []"
      unfolding chunks_complete_def by blast
    then show ?thesis by (rule grow)
  next
    case 2
    with U m have "rid m = r" "cid m = c" by (auto simp: is_chunk_flow_iff)
    with before c' have "chunk_flows DOWN (rid m) c' fs \<noteq> []" by simp
    then show ?thesis by (rule grow)
  next
    case 3
    with D m have "rid m = r" "cid m = c" by (auto simp: is_chunk_flow_iff)
    with before c' have "chunk_flows DOWN (rid m) c' fs \<noteq> []" by simp
    then show ?thesis by (rule grow)
  qed
qed

lemma two_hosts: "2 \<le> nodes \<Longrightarrow> \<not> (\<forall>h \<in> set [0..nodes - 1]. x = Inr h)"
proof
  assume n: "2 \<le> nodes" and all: "\<forall>h \<in> set [0..nodes - 1]. x = Inr h"
  from n have "(0::int) \<in> set [0..nodes - 1]" "(1::int) \<in> set [0..nodes - 1]" by simp_all
  with all have "x = Inr 0" "x = Inr 1" by blast+
  then show False by simp
qed

lemma window_gated_extend:
  assumes "window_gated window fs" and w: "1 \<le> window" and wb: "written_before r c fs"
    and U: "\<forall>u \<in> set U. is_chunk_flow UP r c u"
    and D: "\<forall>d \<in> set D. is_chunk_flow DOWN r c d"
    and gate: "\<forall>u \<in> set U. window \<le> c \<longrightarrow> chunk_flows DOWN r (c - window) fs \<noteq> [] \<longrightarrow>
        (\<exists>t. send_done_trigger (last (chunk_flows DOWN r (c - window) fs)) = Some t
             \<and> start u = Trigger t)"
  shows "window_gated window (fs @ U @ D)"
  unfolding window_gated_def
proof (intro ballI allI impI)
  fix u m
  assume u: "u \<in> set (fs @ U @ D)" and m: "sem u = Some m" "agg_dir m = UP" "window \<le> cid m"
    and ne: "chunk_flows DOWN (rid m) (cid m - window) (fs @ U @ D) \<noteq> []"
  note ext = chunk_flows_extend [OF wb U D]
  from u consider "u \<in> set fs" | "u \<in> set U" | "u \<in> set D" by auto
  then show "\<exists>t. send_done_trigger
               (last (chunk_flows DOWN (rid m) (cid m - window) (fs @ U @ D))) = Some t \<and>
            start u = Trigger t"
  proof cases
    case 1
    from written_beforeD [OF wb 1 m(1)] w have "\<not> (rid m = r \<and> cid m - window = c)"
      by auto
    then have same: "chunk_flows DOWN (rid m) (cid m - window) (fs @ U @ D)
        = chunk_flows DOWN (rid m) (cid m - window) fs"
      by (auto simp: ext)
    with assms(1) 1 m ne show ?thesis unfolding window_gated_def by simp
  next
    case 2
    with U m have rc: "rid m = r" "cid m = c" by (auto simp: is_chunk_flow_iff)
    with w have same: "chunk_flows DOWN (rid m) (cid m - window) (fs @ U @ D)
        = chunk_flows DOWN r (c - window) fs"
      by (simp add: ext)
    with gate 2 m ne rc show ?thesis by simp
  next
    case 3
    with D m show ?thesis by (auto simp: is_chunk_flow_iff)
  qed
qed

section \<open>IncHierarchical: invariant of a run\<close>

lemma chunk_start_issued:
  "inc_inv s \<Longrightarrow> chunk_start window c s = Inr v \<Longrightarrow> issued (trig_id s) v"
  by (auto simp: chunk_start_def inc_inv_def issued_def dest!: py_index_mem
      split: if_splits sum.splits)

lemma start_or_trigger_strD: "start_or_trigger_str v = Trigger g \<Longrightarrow> v = Some g"
  by (auto simp: start_or_trigger_str_def trigger_str_def split: if_splits option.splits)

lemma inc_chunk_inc_inv:
  assumes inv: "inc_inv s"
    and run: "inc_chunk hosts aggs flowsize f window r c s = Inr s'"
  shows "inc_inv s'"
proof -
  from inc_chunk_summary [OF run] obtain v U D t x where
    v: "chunk_start window c s = Inr v"
    and fl: "flows_of (out s') = flows_of (out s) @ U @ D"
    and td: "trigger_defs (out s') = trigger_defs (out s)"
    and U: "\<forall>u \<in> set U. is_chunk_flow UP r c u \<and> start u = start_or_trigger_str v
            \<and> (\<exists>d. send_done_trigger u = Some d \<and> trig_id s < d \<and> d \<le> trig_id s')"
    and D: "\<forall>d \<in> set D. is_chunk_flow DOWN r c d \<and> start d = Trigger t
            \<and> (\<exists>e. send_done_trigger d = Some e \<and> t < e \<and> e \<le> trig_id s')"
    and t: "trig_id s < t" "t \<le> trig_id s'"
    and ldt: "last_downlink_trigger s' = (last_downlink_trigger s)[nat c := x]"
    and x: "trig_id s < x" "x \<le> trig_id s'"
    and ist: "iteration_start_trigger s' = iteration_start_trigger s"
    by blast
  from inv have pos: "1 \<le> trig_id s"
    and old: "\<forall>f \<in> set (flows_of (out s)).
        gate_lt_done f \<and> refs_from 2 f \<and> refs_below (trig_id s + 1) f"
    and oi: "issued (trig_id s) (iteration_start_trigger s)"
    and ol: "\<forall>y \<in> set (last_downlink_trigger s). y = - 1 \<or> 2 \<le> y \<and> y \<le> trig_id s"
    and otd: "trigger_defs (out s) = []"
    by (simp_all add: inc_inv_def)
  have iv: "issued (trig_id s) v" using inv v by (rule chunk_start_issued)
  have mono: "trig_id s \<le> trig_id s'" using t by simp
  have flows: "gate_lt_done g \<and> refs_from 2 g \<and> refs_below (trig_id s' + 1) g"
    if "g \<in> set (flows_of (out s'))" for g
  proof -
    from that consider "g \<in> set (flows_of (out s))" | "g \<in> set U" | "g \<in> set D"
      unfolding fl by auto
    then show ?thesis
    proof cases
      case 1
      with old have "gate_lt_done g" "refs_from 2 g" "refs_below (trig_id s + 1) g"
        by simp_all
      moreover from this(3) mono have "refs_below (trig_id s' + 1) g"
        by (auto simp: refs_below_def)
      ultimately show ?thesis by simp
    next
      case 2
      with U obtain d where g: "start g = start_or_trigger_str v"
        "send_done_trigger g = Some d" "trig_id s < d" "d \<le> trig_id s'" by blast
      have "2 \<le> a \<and> a < d" if "start g = Trigger a" for a
      proof -
        from that g(1) have "v = Some a" by (simp add: start_or_trigger_strD)
        with iv g(3) show ?thesis by (simp add: issued_def)
      qed
      with g pos show ?thesis
        by (fastforce simp: gate_lt_done_def refs_from_def refs_below_def)
    next
      case 3
      with D obtain e where "start g = Trigger t" "send_done_trigger g = Some e" "t < e"
        "e \<le> trig_id s'" by blast
      with t pos show ?thesis by (auto simp: gate_lt_done_def refs_from_def refs_below_def)
    qed
  qed
  have l: "y = - 1 \<or> 2 \<le> y \<and> y \<le> trig_id s'" if "y \<in> set (last_downlink_trigger s')" for y
  proof -
    from that have "y \<in> insert x (set (last_downlink_trigger s))"
      unfolding ldt using set_update_subset_insert by fast
    with ol x pos mono show ?thesis by auto
  qed
  show ?thesis
    unfolding inc_inv_def
    using pos mono td otd flows l issued_mono [OF oi mono] ist by auto
qed

lemma start_or_trigger_str_Some: "t \<noteq> 0 \<Longrightarrow> start_or_trigger_str (Some t) = Trigger t"
  by (simp add: start_or_trigger_str_def trigger_str_def)

lemma inc_chunk_step:
  assumes inv: "inc_chunk_inv nodes chunks window r c s"
    and c: "0 \<le> c" "c \<le> chunks - 1"
    and run: "inc_chunk [0..nodes - 1] aggs flowsize f window r c s = Inr s'"
  shows "inc_chunk_inv nodes chunks window r (c + 1) s'"
proof -
  from inc_chunk_summary [OF run] obtain v U D t x where
    v: "chunk_start window c s = Inr v"
    and fl: "flows_of (out s') = flows_of (out s) @ U @ D"
    and U: "\<forall>u \<in> set U. is_chunk_flow UP r c u \<and> start u = start_or_trigger_str v
            \<and> (\<exists>d. send_done_trigger u = Some d \<and> trig_id s < d \<and> d \<le> trig_id s')"
    and D: "\<forall>d \<in> set D. is_chunk_flow DOWN r c d \<and> start d = Trigger t
            \<and> (\<exists>e. send_done_trigger d = Some e \<and> t < e \<and> e \<le> trig_id s')"
    and Ut: "U \<noteq> [] \<longrightarrow> send_done_trigger (last U) = Some t"
    and UD: "(U = []) = (D = [])"
    and ldt: "last_downlink_trigger s' = (last_downlink_trigger s)[nat c := x]"
    and x: "trig_id s < x"
    and Dx: "D \<noteq> [] \<longrightarrow> send_done_trigger (last D) = Some x"
    and Dh: "(D = []) = (\<forall>h \<in> set [0..nodes - 1]. chunk_to_agg_node aggs c = Inr h)"
    by blast
  from inv have basic: "inc_inv s" and len: "length (last_downlink_trigger s) = nat chunks"
    and wb: "written_before r c (flows_of (out s))"
    and prev: "\<forall>c'. 0 \<le> c' \<and> c' < c \<longrightarrow>
        2 \<le> last_downlink_trigger s ! nat c' \<and>
        (chunk_flows DOWN r c' (flows_of (out s)) \<noteq> [] \<longrightarrow>
           send_done_trigger (last (chunk_flows DOWN r c' (flows_of (out s))))
             = Some (last_downlink_trigger s ! nat c'))"
    and wg: "1 \<le> window \<longrightarrow> window_gated window (flows_of (out s))"
    and fo: "fan_out (flows_of (out s))"
    and cov: "2 \<le> nodes \<longrightarrow>
        chunks_complete (flows_of (out s)) \<and>
        (\<forall>c'. 0 \<le> c' \<and> c' < c \<longrightarrow> chunk_flows DOWN r c' (flows_of (out s)) \<noteq> [])"
    by (simp_all add: inc_chunk_inv_def)
  from basic have pos: "1 \<le> trig_id s" by (simp add: inc_inv_def)
  have Uall: "\<forall>u \<in> set U. is_chunk_flow UP r c u" using U by simp
  have Dall: "\<forall>d \<in> set D. is_chunk_flow DOWN r c d" using D by simp
  note ext = chunk_flows_extend [OF wb Uall Dall]
  have inrange: "nat c < length (last_downlink_trigger s)" using c len by simp
  have p1: "inc_inv s'" using basic run by (rule inc_chunk_inc_inv)
  have p2: "length (last_downlink_trigger s') = nat chunks" by (simp add: ldt len)
  have p3: "written_before r (c + 1) (flows_of (out s'))"
    unfolding fl using wb Uall Dall by (rule written_before_extend)
  have p4: "2 \<le> last_downlink_trigger s' ! nat c' \<and>
        (chunk_flows DOWN r c' (flows_of (out s')) \<noteq> [] \<longrightarrow>
           send_done_trigger (last (chunk_flows DOWN r c' (flows_of (out s'))))
             = Some (last_downlink_trigger s' ! nat c'))"
    if c': "0 \<le> c'" "c' < c + 1" for c'
  proof (cases "c' = c")
    case True
    have "last_downlink_trigger s' ! nat c = x" unfolding ldt using inrange by simp
    moreover have "chunk_flows DOWN r c (flows_of (out s')) = D" by (simp add: fl ext)
    ultimately show ?thesis using True x pos Dx by simp
  next
    case False
    with c' have lt: "c' < c" by simp
    with c' have "nat c' \<noteq> nat c" by simp
    then have "last_downlink_trigger s' ! nat c' = last_downlink_trigger s ! nat c'"
      unfolding ldt by simp
    moreover from False have "chunk_flows DOWN r c' (flows_of (out s'))
        = chunk_flows DOWN r c' (flows_of (out s))" by (simp add: fl ext)
    ultimately show ?thesis using prev c'(1) lt by simp
  qed
  have p5: "window_gated window (flows_of (out s'))" if w: "1 \<le> window"
    unfolding fl
  proof (rule window_gated_extend [OF _ w wb Uall Dall])
    show "window_gated window (flows_of (out s))" using wg w by simp
    show "\<forall>u \<in> set U. window \<le> c \<longrightarrow> chunk_flows DOWN r (c - window) (flows_of (out s)) \<noteq> [] \<longrightarrow>
        (\<exists>t. send_done_trigger (last (chunk_flows DOWN r (c - window) (flows_of (out s)))) = Some t
             \<and> start u = Trigger t)"
    proof (intro ballI impI)
      fix u
      assume u: "u \<in> set U" and wc: "window \<le> c"
        and ne: "chunk_flows DOWN r (c - window) (flows_of (out s)) \<noteq> []"
      define p where "p = last_downlink_trigger s ! nat (c - window)"
      from wc w have range: "0 \<le> c - window" "c - window < c" by simp_all
      with prev ne have p: "2 \<le> p"
        "send_done_trigger (last (chunk_flows DOWN r (c - window) (flows_of (out s)))) = Some p"
        unfolding p_def by simp_all
      from range inrange have "py_index (last_downlink_trigger s) (c - window) = Inr p"
        unfolding p_def py_index_def by simp
      with v wc p(1) have "v = Some p" by (simp add: chunk_start_def)
      with U u p(1) have "start u = Trigger p" by (simp add: start_or_trigger_str_Some)
      with p(2) show "\<exists>t. send_done_trigger (last (chunk_flows DOWN r (c - window) (flows_of (out s)))) = Some t
             \<and> start u = Trigger t" by simp
    qed
  qed
  have p6: "fan_out (flows_of (out s'))"
    unfolding fl
  proof (rule fan_out_extend [OF fo wb Uall Dall])
    show "D \<noteq> [] \<longrightarrow> U \<noteq> []" using UD by simp
    show "\<forall>d \<in> set D. \<exists>t. send_done_trigger (last U) = Some t \<and> start d = Trigger t"
    proof
      fix d assume d: "d \<in> set D"
      then have "D \<noteq> []" by auto
      with UD Ut have "send_done_trigger (last U) = Some t" by simp
      with D d show "\<exists>t. send_done_trigger (last U) = Some t \<and> start d = Trigger t" by simp
    qed
  qed
  have p7: "chunks_complete (flows_of (out s')) \<and>
        (\<forall>c'. 0 \<le> c' \<and> c' < c + 1 \<longrightarrow> chunk_flows DOWN r c' (flows_of (out s')) \<noteq> [])"
    if n: "2 \<le> nodes"
  proof
    from cov n have cc: "chunks_complete (flows_of (out s))"
      and before: "\<forall>c'. 0 \<le> c' \<and> c' < c \<longrightarrow> chunk_flows DOWN r c' (flows_of (out s)) \<noteq> []"
      by simp_all
    show "chunks_complete (flows_of (out s'))"
      unfolding fl using cc before wb Uall Dall by (rule chunks_complete_extend)
    from Dh two_hosts [OF n] have Dne: "D \<noteq> []" by blast
    show "\<forall>c'. 0 \<le> c' \<and> c' < c + 1 \<longrightarrow> chunk_flows DOWN r c' (flows_of (out s')) \<noteq> []"
    proof (intro allI impI)
      fix c' assume c': "0 \<le> c' \<and> c' < c + 1"
      show "chunk_flows DOWN r c' (flows_of (out s')) \<noteq> []"
      proof (cases "c' = c")
        case True
        then show ?thesis using Dne by (simp add: fl ext)
      next
        case False
        with c' before have "chunk_flows DOWN r c' (flows_of (out s)) \<noteq> []" by simp
        with False show ?thesis by (simp add: fl ext)
      qed
    qed
  qed
  show ?thesis
    unfolding inc_chunk_inv_def using p1 p2 p3 p4 p5 p6 p7 by blast
qed

lemma inc_chunk_inv_start:
  assumes "inc_iter_inv nodes chunks window it s"
  shows "inc_chunk_inv nodes chunks window (it + 1) 0
           (print_line (IterationComment (it + 1)) (print_line Blank s))"
  using assms
  by (auto simp: inc_iter_inv_def inc_chunk_inv_def inc_inv_def print_line_def)

lemma inc_iteration_step:
  assumes inv: "inc_iter_inv nodes chunks window it s"
    and run: "inc_iteration [0..nodes - 1] aggs flowsize chunks f window it s = Inr s'"
  shows "inc_iter_inv nodes chunks window (it + 1) s'"
proof -
  define s0 where "s0 = print_line (IterationComment (it + 1)) (print_line Blank s)"
  from run obtain sc t where
    loop: "for_each (inc_chunk [0..nodes - 1] aggs flowsize f window (it + 1)) [0..chunks - 1] s0
             = Inr sc"
    and t: "py_index (last_downlink_trigger sc) (chunks - 1) = Inr t"
    and s': "s' = sc\<lparr>iteration_start_trigger := Some t\<rparr>"
    by (auto simp: inc_iteration_def Let_def s0_def split: sum.splits)
  have start: "inc_chunk_inv nodes chunks window (it + 1) 0 s0"
    unfolding s0_def using inv by (rule inc_chunk_inv_start)
  have some: "1 \<le> chunks"
  proof (rule ccontr)
    assume none: "\<not> 1 \<le> chunks"
    then have "[0..chunks - 1] = []" "nat chunks = 0" by simp_all
    with loop start have "last_downlink_trigger sc = []"
      by (simp add: inc_chunk_inv_def)
    then have "py_index (last_downlink_trigger sc) (chunks - 1) = Inl IndexError"
      by (simp add: py_index_def)
    with t show False by simp
  qed
  have "inc_chunk_inv nodes chunks window (it + 1) (chunks - 1 + 1) sc"
    using loop start
  proof (rule for_each_upto_inv)
    show "0 \<le> chunks - 1 + 1" using some by simp
  next
    fix i u u'
    assume "0 \<le> i" "i \<le> chunks - 1" "inc_chunk_inv nodes chunks window (it + 1) i u"
      "inc_chunk [0..nodes - 1] aggs flowsize f window (it + 1) i u = Inr u'"
    from this(3,1,2,4) show "inc_chunk_inv nodes chunks window (it + 1) (i + 1) u'"
      by (rule inc_chunk_step)
  qed
  then have fin: "inc_chunk_inv nodes chunks window (it + 1) chunks sc" by simp
  then have basic: "inc_inv sc" and len: "length (last_downlink_trigger sc) = nat chunks"
    and wb: "written_before (it + 1) chunks (flows_of (out sc))"
    and last: "2 \<le> last_downlink_trigger sc ! nat (chunks - 1)"
    and wg: "1 \<le> window \<longrightarrow> window_gated window (flows_of (out sc))"
    and fo: "fan_out (flows_of (out sc))"
    and cc: "2 \<le> nodes \<longrightarrow> chunks_complete (flows_of (out sc))"
    using some by (simp_all add: inc_chunk_inv_def)
  from t some len have tv: "t = last_downlink_trigger sc ! nat (chunks - 1)"
    by (simp add: py_index_def)
  from py_index_mem [OF t] basic have "t = - 1 \<or> 2 \<le> t \<and> t \<le> trig_id sc"
    by (simp add: inc_inv_def)
  with last tv have "issued (trig_id sc) (Some t)" by (simp add: issued_def)
  with basic have p1: "inc_inv s'" unfolding s' by (simp add: inc_inv_def)
  have p3: "written_before (it + 1 + 1) 0 (flows_of (out s'))"
    unfolding written_before_def
  proof
    fix g assume "g \<in> set (flows_of (out s'))"
    then have "g \<in> set (flows_of (out sc))" by (simp add: s')
    with wb obtain m where "sem g = Some m" "rid m < it + 1 \<or> rid m = it + 1 \<and> cid m < chunks"
      unfolding written_before_def by blast
    then show "\<exists>m. sem g = Some m \<and> (rid m < it + 1 + 1 \<or> rid m = it + 1 + 1 \<and> cid m < 0)"
      by auto
  qed
  show ?thesis
    unfolding inc_iter_inv_def using p1 p3 len wg fo cc by (simp add: s')
qed

lemma inc_init_inv: "inc_iter_inv nodes chunks window 0 (inc_init nodes chunks)"
  by (simp add: inc_iter_inv_def inc_inv_def inc_init_def issued_def written_before_def
      window_gated_def fan_out_def chunks_complete_def)

lemma inc_run_inv:
  assumes "inc_run nodes k flowsize chunks f iterations window = Inr s"
  shows "inc_inv s \<and> (1 \<le> window \<longrightarrow> window_gated window (flows_of (out s)))
         \<and> fan_out (flows_of (out s))
         \<and> (2 \<le> nodes \<longrightarrow> chunks_complete (flows_of (out s)))"
proof (cases "0 \<le> iterations")
  case True
  have "inc_iter_inv nodes chunks window (iterations - 1 + 1) s"
    using assms [unfolded inc_run_def] inc_init_inv
  proof (rule for_each_upto_inv)
    show "0 \<le> iterations - 1 + 1" using True by simp
  next
    fix i u u'
    assume "inc_iter_inv nodes chunks window i u"
      "inc_iteration [0..nodes - 1] (agg_nodes k) flowsize chunks f window i u = Inr u'"
    then show "inc_iter_inv nodes chunks window (i + 1) u'" by (rule inc_iteration_step)
  qed
  then show ?thesis by (simp add: inc_iter_inv_def)
next
  case False
  then have "[0..iterations - 1] = []" by simp
  with assms have "s = inc_init nodes chunks" by (simp add: inc_run_def)
  with inc_init_inv [of nodes chunks window] show ?thesis by (simp add: inc_iter_inv_def)
qed

lemma inc_file_inv:
  assumes "gen_allreduce_inc R nodes k flowsize chunks f iterations window randseed = Inr ls"
  shows "(\<forall>g \<in> set (flows_of ls). gate_lt_done g) \<and> unused_trigger 1 ls
         \<and> (1 \<le> window \<longrightarrow> window_gated window (flows_of ls)) \<and> fan_out (flows_of ls)
         \<and> (2 \<le> nodes \<longrightarrow> chunks_complete (flows_of ls))"
proof -
  from assms obtain s where run: "inc_run nodes k flowsize chunks f iterations window = Inr s"
    and ls: "ls = insert_header (connections s) (trig_id s)
                 (out s @ [Blank, Comment ''# --- TRIGGERS ---''] @ trigger_section (trig_id s))"
    by (auto simp: gen_allreduce_inc_def Let_def split: sum.splits)
  have fl: "flows_of ls = flows_of (out s)" by (simp add: ls)
  from inc_run_inv [OF run] have inv: "inc_inv s"
    and rest: "(1 \<le> window \<longrightarrow> window_gated window (flows_of ls)) \<and> fan_out (flows_of ls)
         \<and> (2 \<le> nodes \<longrightarrow> chunks_complete (flows_of ls))"
    unfolding fl by simp_all
  from inv have "trigger_defs ls = [1..trig_id s]" "1 \<le> trig_id s"
    by (simp_all add: ls inc_inv_def)
  with inv have "unused_trigger 1 ls"
    unfolding unused_trigger_def fl by (fastforce simp: inc_inv_def refs_from_def)
  with inv rest show ?thesis unfolding fl by (simp add: inc_inv_def)
qed

lemma inc_window1_file:
  "gen_allreduce_inc demo_random 2 2 100 2 7 1 1 0 =
     Inr [Nodes 2,
          Connections 4,
          Triggers 5,
          Blank,
          IterationComment 1,
          FlowL \<lparr>src = 1, dst = 0, fl_id = 1, start = Start0, fsize = 100,
           send_done_trigger = Some 2, sem = Some \<lparr>agg_dir = UP, fid = 7, rid = 1, cid = 0\<rparr>\<rparr>,
          FlowL \<lparr>src = 0, dst = 1, fl_id = 2, start = Trigger 2, fsize = 100,
           send_done_trigger = Some 3, sem = Some \<lparr>agg_dir = DOWN, fid = 7, rid = 1, cid = 0\<rparr>\<rparr>,
          FlowL \<lparr>src = 1, dst = 0, fl_id = 3, start = Trigger 3, fsize = 100,
           send_done_trigger = Some 4, sem = Some \<lparr>agg_dir = UP, fid = 7, rid = 1, cid = 1\<rparr>\<rparr>,
          FlowL \<lparr>src = 0, dst = 1, fl_id = 4, start = Trigger 4, fsize = 100,
           send_done_trigger = Some 5, sem = Some \<lparr>agg_dir = DOWN, fid = 7, rid = 1, cid = 1\<rparr>\<rparr>,
          Blank,
          Comment ''# --- TRIGGERS ---'',
          TriggerDef 1,
          TriggerDef 2,
          TriggerDef 3,
          TriggerDef 4,
          TriggerDef 5]"
  by (simp add: inc_defs upto_small)

lemma inc_single_node_file:
  "gen_allreduce_inc demo_random 1 4 100 2 7 1 1 0 =
     Inr [Nodes 1,
          Connections 2,
          Triggers 5,
          Blank,
          IterationComment 1,
          FlowL \<lparr>src = 0, dst = 1, fl_id = 1, start = Trigger 3, fsize = 100,
           send_done_trigger = Some 4, sem = Some \<lparr>agg_dir = UP, fid = 7, rid = 1, cid = 1\<rparr>\<rparr>,
          FlowL \<lparr>src = 1, dst = 0, fl_id = 2, start = Trigger 4, fsize = 100,
           send_done_trigger = Some 5, sem = Some \<lparr>agg_dir = DOWN, fid = 7, rid = 1, cid = 1\<rparr>\<rparr>,
          Blank,
          Comment ''# --- TRIGGERS ---'',
          TriggerDef 1,
          TriggerDef 2,
          TriggerDef 3,
          TriggerDef 4,
          TriggerDef 5]"
  by (simp add: inc_defs upto_small upto_rec1)

lemma inc_3_two_chunks_file:
  "gen_allreduce_inc demo_random 3 2 100 2 7 1 1 0 =
     Inr [Nodes 3,
          Connections 8,
          Triggers 9,
          Blank,
          IterationComment 1,
          FlowL \<lparr>src = 1, dst = 0, fl_id = 1, start = Start0, fsize = 100,
           send_done_trigger = Some 2, sem = Some \<lparr>agg_dir = UP, fid = 7, rid = 1, cid = 0\<rparr>\<rparr>,
          FlowL \<lparr>src = 2, dst = 0, fl_id = 2, start = Start0, fsize = 100,
           send_done_trigger = Some 3, sem = Some \<lparr>agg_dir = UP, fid = 7, rid = 1, cid = 0\<rparr>\<rparr>,
          FlowL \<lparr>src = 0, dst = 1, fl_id = 3, start = Trigger 3, fsize = 100,
           send_done_trigger = Some 4, sem = Some \<lparr>agg_dir = DOWN, fid = 7, rid = 1, cid = 0\<rparr>\<rparr>,
          FlowL \<lparr>src = 0, dst = 2, fl_id = 4, start = Trigger 3, fsize = 100,
           send_done_trigger = Some 5, sem = Some \<lparr>agg_dir = DOWN, fid = 7, rid = 1, cid = 0\<rparr>\<rparr>,
          FlowL \<lparr>src = 1, dst = 0, fl_id = 5, start = Trigger 5, fsize = 100,
           send_done_trigger = Some 6, sem = Some \<lparr>agg_dir = UP, fid = 7, rid = 1, cid = 1\<rparr>\<rparr>,
          FlowL \<lparr>src = 2, dst = 0, fl_id = 6, start = Trigger 5, fsize = 100,
           send_done_trigger = Some 7, sem = Some \<lparr>agg_dir = UP, fid = 7, rid = 1, cid = 1\<rparr>\<rparr>,
          FlowL \<lparr>src = 0, dst = 1, fl_id = 7, start = Trigger 7, fsize = 100,
           send_done_trigger = Some 8, sem = Some \<lparr>agg_dir = DOWN, fid = 7, rid = 1, cid = 1\<rparr>\<rparr>,
          FlowL \<lparr>src = 0, dst = 2, fl_id = 8, start = Trigger 7, fsize = 100,
           send_done_trigger = Some 9, sem = Some \<lparr>agg_dir = DOWN, fid = 7, rid = 1, cid = 1\<rparr>\<rparr>,
          Blank,
          Comment ''# --- TRIGGERS ---'',
          TriggerDef 1,
          TriggerDef 2,
          TriggerDef 3,
          TriggerDef 4,
          TriggerDef 5,
          TriggerDef 6,
          TriggerDef 7,
          TriggerDef 8,
          TriggerDef 9]"
  by (simp add: inc_defs upto_small upto_rec1)

section \<open>Acyclic dependencies\<close>

text \<open>
  C7.  For each of the four generators and every parameter set on which the script runs
  to completion, the graph with an edge from flow \<open>x\<close> to flow \<open>y\<close> whenever the
  completion trigger of \<open>x\<close> is the start gate of \<open>y\<close> has no cycle.
\<close>

theorem schedules_acyclic:
  "(gen_allreduce_ring R nodes conns groupsize flowsize locality randseed = Inr ls
      \<longrightarrow> acyclic (gating (flows_of ls)))
   \<and> (gen_allreduce_tree R nodes branch_factor flowsize randseed = Inr ls
      \<longrightarrow> acyclic (gating (flows_of ls)))
   \<and> (gen_allreduce_supernode R nodes flowsize iterations randseed = Inr ls
      \<longrightarrow> acyclic (gating (flows_of ls)))
   \<and> (gen_allreduce_inc R nodes k flowsize chunks f iterations window randseed = Inr ls
      \<longrightarrow> acyclic (gating (flows_of ls)))"
proof (intro conjI impI)
  assume "gen_allreduce_ring R nodes conns groupsize flowsize locality randseed = Inr ls"
  then show "acyclic (gating (flows_of ls))"
    by (intro acyclic_gating ring_file_inv)
next
  assume "gen_allreduce_tree R nodes branch_factor flowsize randseed = Inr ls"
  from tree_file_inv [OF this] show "acyclic (gating (flows_of ls))"
    by (intro acyclic_gating) simp
next
  assume "gen_allreduce_supernode R nodes flowsize iterations randseed = Inr ls"
  from sn_file_inv [OF this] show "acyclic (gating (flows_of ls))"
    by (intro acyclic_gating) simp
next
  assume "gen_allreduce_inc R nodes k flowsize chunks f iterations window randseed = Inr ls"
  from inc_file_inv [OF this] show "acyclic (gating (flows_of ls))"
    by (intro acyclic_gating) simp
qed

theorem schedules_acyclic_witness:
  "gen_allreduce_ring demo_random 3 3 3 100 0 0 = Inr (lines_of (gen_allreduce_ring demo_random 3 3 3 100 0 0))
   \<and> acyclic (gating (flows_of (lines_of (gen_allreduce_ring demo_random 3 3 3 100 0 0))))
   \<and> gen_allreduce_tree demo_random 4 2 100 0 = Inr (lines_of (gen_allreduce_tree demo_random 4 2 100 0))
   \<and> acyclic (gating (flows_of (lines_of (gen_allreduce_tree demo_random 4 2 100 0))))
   \<and> gen_allreduce_supernode demo_random 3 100 2 0 = Inr (lines_of (gen_allreduce_supernode demo_random 3 100 2 0))
   \<and> acyclic (gating (flows_of (lines_of (gen_allreduce_supernode demo_random 3 100 2 0))))
   \<and> gen_allreduce_inc demo_random 3 2 100 1 7 1 1 0 = Inr (lines_of (gen_allreduce_inc demo_random 3 2 100 1 7 1 1 0))
   \<and> acyclic (gating (flows_of (lines_of (gen_allreduce_inc demo_random 3 2 100 1 7 1 1 0))))"
proof -
  have ring: "gen_allreduce_ring demo_random 3 3 3 100 0 0 = Inr (lines_of (gen_allreduce_ring demo_random 3 3 3 100 0 0))"
    by (simp add: ring_3_file lines_of_def)
  have tree: "gen_allreduce_tree demo_random 4 2 100 0 = Inr (lines_of (gen_allreduce_tree demo_random 4 2 100 0))"
    by (simp add: tree_4_2_file lines_of_def)
  have sn: "gen_allreduce_supernode demo_random 3 100 2 0 = Inr (lines_of (gen_allreduce_supernode demo_random 3 100 2 0))"
    by (simp add: sn_3_file lines_of_def)
  have inc: "gen_allreduce_inc demo_random 3 2 100 1 7 1 1 0 = Inr (lines_of (gen_allreduce_inc demo_random 3 2 100 1 7 1 1 0))"
    by (simp add: inc_3_file lines_of_def)
  from ring tree sn inc
    schedules_acyclic [THEN conjunct1, THEN mp, OF ring]
    schedules_acyclic [THEN conjunct2, THEN conjunct1, THEN mp, OF tree]
    schedules_acyclic [THEN conjunct2, THEN conjunct2, THEN conjunct1, THEN mp, OF sn]
    schedules_acyclic [THEN conjunct2, THEN conjunct2, THEN conjunct2, THEN mp, OF inc]
  show ?thesis by blast
qed

section \<open>Declared triggers that nothing uses\<close>

text \<open>
  C10.  Whenever the Tree, Supernode or IncHierarchical script runs to completion, its
  trigger section declares an id that no flow line attaches as \<^verbatim>\<open>send_done_trigger\<close> and
  no flow line waits for: the last declared id for Tree, id 1 for Supernode and
  IncHierarchical.
\<close>

theorem declared_trigger_unused:
  "(gen_allreduce_tree R nodes branch_factor flowsize randseed = Inr ls
      \<longrightarrow> trigger_defs ls \<noteq> [] \<and> unused_trigger (last (trigger_defs ls)) ls)
   \<and> (gen_allreduce_supernode R nodes flowsize iterations randseed = Inr ls
      \<longrightarrow> unused_trigger 1 ls)
   \<and> (gen_allreduce_inc R nodes k flowsize chunks f iterations window randseed = Inr ls
      \<longrightarrow> unused_trigger 1 ls)"
proof (intro conjI impI)
  assume "gen_allreduce_tree R nodes branch_factor flowsize randseed = Inr ls"
  from tree_file_inv [OF this]
  show "trigger_defs ls \<noteq> []" "unused_trigger (last (trigger_defs ls)) ls" by simp_all
next
  assume "gen_allreduce_supernode R nodes flowsize iterations randseed = Inr ls"
  from sn_file_inv [OF this] show "unused_trigger 1 ls" by simp
next
  assume "gen_allreduce_inc R nodes k flowsize chunks f iterations window randseed = Inr ls"
  from inc_file_inv [OF this] show "unused_trigger 1 ls" by simp
qed

theorem declared_trigger_unused_witness:
  "gen_allreduce_tree demo_random 4 2 100 0 = Inr (lines_of (gen_allreduce_tree demo_random 4 2 100 0))
   \<and> last (trigger_defs (lines_of (gen_allreduce_tree demo_random 4 2 100 0))) = 5
   \<and> unused_trigger 5 (lines_of (gen_allreduce_tree demo_random 4 2 100 0))
   \<and> gen_allreduce_supernode demo_random 3 100 2 0 = Inr (lines_of (gen_allreduce_supernode demo_random 3 100 2 0))
   \<and> unused_trigger 1 (lines_of (gen_allreduce_supernode demo_random 3 100 2 0))
   \<and> gen_allreduce_inc demo_random 3 2 100 1 7 1 1 0 = Inr (lines_of (gen_allreduce_inc demo_random 3 2 100 1 7 1 1 0))
   \<and> unused_trigger 1 (lines_of (gen_allreduce_inc demo_random 3 2 100 1 7 1 1 0))"
proof -
  have tree: "gen_allreduce_tree demo_random 4 2 100 0 = Inr (lines_of (gen_allreduce_tree demo_random 4 2 100 0))"
    by (simp add: tree_4_2_file lines_of_def)
  have sn: "gen_allreduce_supernode demo_random 3 100 2 0 = Inr (lines_of (gen_allreduce_supernode demo_random 3 100 2 0))"
    by (simp add: sn_3_file lines_of_def)
  have inc: "gen_allreduce_inc demo_random 3 2 100 1 7 1 1 0 = Inr (lines_of (gen_allreduce_inc demo_random 3 2 100 1 7 1 1 0))"
    by (simp add: inc_3_file lines_of_def)
  have five: "last (trigger_defs (lines_of (gen_allreduce_tree demo_random 4 2 100 0))) = 5"
    by (simp add: tree_4_2_file lines_of_def)
  from declared_trigger_unused [THEN conjunct1, THEN mp, OF tree]
  have "unused_trigger 5 (lines_of (gen_allreduce_tree demo_random 4 2 100 0))" unfolding five by simp
  with tree sn inc five
    declared_trigger_unused [THEN conjunct2, THEN conjunct1, THEN mp, OF sn]
    declared_trigger_unused [THEN conjunct2, THEN conjunct2, THEN mp, OF inc]
  show ?thesis by blast
qed

section \<open>IncHierarchical: one flow for each completion trigger\<close>

lemma inc_uplink_own:
  "own_triggers s \<Longrightarrow> own_triggers (inc_uplink dst_agg g flowsize f r c h s)"
  unfolding own_triggers_def inc_uplink_def print_line_def by fastforce

lemma inc_downlink_own:
  "own_triggers s \<Longrightarrow> own_triggers (inc_downlink dst_agg flowsize f r c h s)"
  unfolding own_triggers_def inc_downlink_def print_line_def by fastforce

lemma ensure_upload_trig_own: "own_triggers s \<Longrightarrow> own_triggers (ensure_upload_trig s)"
  unfolding own_triggers_def ensure_upload_trig_def by fastforce

lemma record_down_trig_own: "own_triggers s \<Longrightarrow> own_triggers (record_down_trig c s)"
  unfolding own_triggers_def record_down_trig_def by (fastforce split: option.splits)

lemma inc_chunk_own:
  assumes "inc_chunk hosts aggs flowsize f window r c s = Inr s'" and "own_triggers s"
  shows "own_triggers s'"
proof -
  from assms(1) obtain g a where s': "s' = record_down_trig c
      (fold (inc_downlink a flowsize f r c) hosts
         ((ensure_upload_trig (fold (inc_uplink a g flowsize f r c) hosts
             (s\<lparr>last_upload_trig := None\<rparr>)))\<lparr>last_down_trig := None\<rparr>))"
    by (auto simp: inc_chunk_def Let_def split: sum.splits)
  from assms(2) have "own_triggers (s\<lparr>last_upload_trig := None\<rparr>)"
    by (simp add: own_triggers_def)
  then have "own_triggers (fold (inc_uplink a g flowsize f r c) hosts (s\<lparr>last_upload_trig := None\<rparr>))"
    by (rule fold_inv) (rule inc_uplink_own)
  then have "own_triggers (ensure_upload_trig (fold (inc_uplink a g flowsize f r c) hosts
             (s\<lparr>last_upload_trig := None\<rparr>)))"
    by (rule ensure_upload_trig_own)
  then have "own_triggers ((ensure_upload_trig (fold (inc_uplink a g flowsize f r c) hosts
             (s\<lparr>last_upload_trig := None\<rparr>)))\<lparr>last_down_trig := None\<rparr>)"
    by (simp add: own_triggers_def)
  then have "own_triggers (fold (inc_downlink a flowsize f r c) hosts
         ((ensure_upload_trig (fold (inc_uplink a g flowsize f r c) hosts
             (s\<lparr>last_upload_trig := None\<rparr>)))\<lparr>last_down_trig := None\<rparr>))"
    by (rule fold_inv) (rule inc_downlink_own)
  then show ?thesis unfolding s' by (rule record_down_trig_own)
qed

lemma inc_iteration_own:
  assumes "inc_iteration hosts aggs flowsize chunks f window it s = Inr s'" and "own_triggers s"
  shows "own_triggers s'"
proof -
  from assms(1) obtain u where
    loop: "for_each (inc_chunk hosts aggs flowsize f window (it + 1)) [0..chunks - 1]
             (print_line (IterationComment (it + 1)) (print_line Blank s)) = Inr u"
    and s': "s' = u\<lparr>iteration_start_trigger := iteration_start_trigger s'\<rparr>"
    by (auto simp: inc_iteration_def Let_def split: sum.splits)
  from assms(2) have "own_triggers (print_line (IterationComment (it + 1)) (print_line Blank s))"
    by (simp add: own_triggers_def print_line_def)
  with loop have "own_triggers u"
    by (rule for_each_inv) (rule inc_chunk_own)
  then have "own_triggers (u\<lparr>iteration_start_trigger := iteration_start_trigger s'\<rparr>)"
    by (simp add: own_triggers_def)
  with s' show ?thesis by simp
qed

lemma inc_run_own:
  assumes "inc_run nodes k flowsize chunks f iterations window = Inr s"
  shows "own_triggers s"
  using assms [unfolded inc_run_def]
proof (rule for_each_inv)
  show "own_triggers (inc_init nodes chunks)" by (simp add: own_triggers_def inc_init_def)
qed (rule inc_iteration_own)

lemma inc_file_own:
  assumes "gen_allreduce_inc R nodes k flowsize chunks f iterations window randseed = Inr ls"
    and "x \<in> set (flows_of ls)"
  shows "\<exists>t. send_done_trigger x = Some t \<and>
            (\<forall>y \<in> set (flows_of ls). send_done_trigger y = Some t \<longrightarrow> y = x)"
proof -
  from assms(1) obtain s where run: "inc_run nodes k flowsize chunks f iterations window = Inr s"
    and ls: "ls = insert_header (connections s) (trig_id s)
                 (out s @ [Blank, Comment ''# --- TRIGGERS ---''] @ trigger_section (trig_id s))"
    by (auto simp: gen_allreduce_inc_def Let_def split: sum.splits)
  have fl: "flows_of ls = flows_of (out s)" by (simp add: ls)
  from inc_run_own [OF run] assms(2) obtain t where t: "send_done_trigger x = Some t"
    and inj: "inj_on send_done_trigger (set (flows_of ls))"
    unfolding own_triggers_def fl by (auto simp: distinct_map)
  from inj assms(2) t have "\<forall>y \<in> set (flows_of ls). send_done_trigger y = Some t \<longrightarrow> y = x"
    by (auto simp: inj_on_def)
  with t show ?thesis by blast
qed

section \<open>IncHierarchical: replaying the sliding window\<close>

lemma done_by_mono: "done_by T x a \<Longrightarrow> a \<le> b \<Longrightarrow> done_by T x b"
  by (auto simp: done_by_def split: option.splits)

lemma begun_by_mono: "begun_by T x a \<Longrightarrow> a \<le> b \<Longrightarrow> begun_by T x b"
  by (auto simp: begun_by_def split: option.splits)

lemma replays_gate:
  assumes "replays T fs" and "y \<in> set fs" and "start y = Trigger t" and "begun_by T y now"
  shows "\<exists>x \<in> set fs. send_done_trigger x = Some t \<and> done_by T x now"
proof -
  from assms(4) obtain b where b: "started T y = Some b" "b \<le> now"
    by (auto simp: begun_by_def split: option.splits)
  from assms(1,2) have "case started T y of
          None \<Rightarrow> True
        | Some b \<Rightarrow>
            (case start y of
               Trigger t \<Rightarrow> \<exists>x \<in> set fs. send_done_trigger x = Some t \<and> done_by T x b
             | _ \<Rightarrow> True)"
    unfolding replays_def by blast
  with b(1) assms(3) obtain x where "x \<in> set fs" "send_done_trigger x = Some t" "done_by T x b"
    by auto
  with b(2) show ?thesis by (blast intro: done_by_mono)
qed

lemma replays_done:
  assumes "replays T fs" and "x \<in> set fs" and "done_by T x now"
  shows "begun_by T x now"
proof -
  from assms(3) obtain e where e: "finished T x = Some e" "e \<le> now"
    by (auto simp: done_by_def split: option.splits)
  from assms(1,2) have "case finished T x of None \<Rightarrow> True | Some e \<Rightarrow> begun_by T x e"
    unfolding replays_def by blast
  with e(1) have "begun_by T x e" by simp
  with e(2) show ?thesis by (blast intro: begun_by_mono)
qed

lemma last_chunk_flow:
  assumes "chunk_flows dir r c fs \<noteq> []"
  shows "last (chunk_flows dir r c fs) \<in> set fs \<and>
         (\<exists>m. sem (last (chunk_flows dir r c fs)) = Some m \<and> agg_dir m = dir \<and> rid m = r \<and> cid m = c)"
proof -
  from assms have "last (chunk_flows dir r c fs) \<in> set (chunk_flows dir r c fs)" by simp
  then show ?thesis by (simp add: chunk_flows_def is_chunk_flow_iff)
qed

lemma window_step:
  assumes gen: "gen_allreduce_inc R nodes k flowsize chunks f iterations window randseed = Inr ls"
    and w: "1 \<le> window" and n: "2 \<le> nodes"
    and rep: "replays T (flows_of ls)"
    and u: "u \<in> set (chunk_flows UP r c (flows_of ls))" and c: "window \<le> c"
    and begun: "begun_by T u now"
  shows "chunk_flows DOWN r (c - window) (flows_of ls) \<noteq> []
         \<and> done_by T (last (chunk_flows DOWN r (c - window) (flows_of ls))) now"
proof -
  from inc_file_inv [OF gen] w n have wg: "window_gated window (flows_of ls)"
    and cc: "chunks_complete (flows_of ls)" by simp_all
  from u have mem: "u \<in> set (flows_of ls)" and "is_chunk_flow UP r c u"
    by (simp_all add: chunk_flows_def)
  then obtain m where m: "sem u = Some m" "agg_dir m = UP" "rid m = r" "cid m = c"
    unfolding is_chunk_flow_iff by blast
  from w c have "0 \<le> c - window \<and> c - window < cid m" using m(4) by simp
  with cc mem m(1) have "chunk_flows DOWN (rid m) (c - window) (flows_of ls) \<noteq> []"
    unfolding chunks_complete_def by blast
  then have ne: "chunk_flows DOWN r (c - window) (flows_of ls) \<noteq> []" using m(3) by simp
  with wg mem m c obtain t where
    t: "send_done_trigger (last (chunk_flows DOWN r (c - window) (flows_of ls))) = Some t"
    and gate: "start u = Trigger t"
    unfolding window_gated_def by blast
  from replays_gate [OF rep mem gate begun] obtain x where
    x: "x \<in> set (flows_of ls)" "send_done_trigger x = Some t" "done_by T x now" by blast
  from last_chunk_flow [OF ne]
  have "last (chunk_flows DOWN r (c - window) (flows_of ls)) \<in> set (flows_of ls)" by simp
  from inc_file_own [OF gen this] t x(1,2)
  have "x = last (chunk_flows DOWN r (c - window) (flows_of ls))" by auto
  with x(3) ne show ?thesis by simp
qed

lemma fan_step:
  assumes gen: "gen_allreduce_inc R nodes k flowsize chunks f iterations window randseed = Inr ls"
    and rep: "replays T (flows_of ls)"
    and ne: "chunk_flows DOWN r c (flows_of ls) \<noteq> []"
    and fin: "done_by T (last (chunk_flows DOWN r c (flows_of ls))) now"
  shows "\<exists>u \<in> set (chunk_flows UP r c (flows_of ls)). begun_by T u now"
proof -
  from inc_file_inv [OF gen] have fo: "fan_out (flows_of ls)" by simp
  from last_chunk_flow [OF ne] obtain m where
    mem: "last (chunk_flows DOWN r c (flows_of ls)) \<in> set (flows_of ls)"
    and m: "sem (last (chunk_flows DOWN r c (flows_of ls))) = Some m" "agg_dir m = DOWN"
      "rid m = r" "cid m = c" by blast
  from fo mem m obtain t where ups: "chunk_flows UP r c (flows_of ls) \<noteq> []"
    and t: "send_done_trigger (last (chunk_flows UP r c (flows_of ls))) = Some t"
    and gate: "start (last (chunk_flows DOWN r c (flows_of ls))) = Trigger t"
    unfolding fan_out_def by blast
  from replays_done [OF rep mem fin]
  have "begun_by T (last (chunk_flows DOWN r c (flows_of ls))) now" .
  from replays_gate [OF rep mem gate this] obtain x where
    x: "x \<in> set (flows_of ls)" "send_done_trigger x = Some t" "done_by T x now" by blast
  from last_chunk_flow [OF ups]
  have umem: "last (chunk_flows UP r c (flows_of ls)) \<in> set (flows_of ls)" by simp
  from inc_file_own [OF gen this] t x(1,2)
  have "x = last (chunk_flows UP r c (flows_of ls))" by auto
  with x(3) have "done_by T (last (chunk_flows UP r c (flows_of ls))) now" by simp
  from replays_done [OF rep umem this]
  have "begun_by T (last (chunk_flows UP r c (flows_of ls))) now" .
  moreover from ups have "last (chunk_flows UP r c (flows_of ls)) \<in> set (chunk_flows UP r c (flows_of ls))"
    by simp
  ultimately show ?thesis by blast
qed

lemma window_chain:
  assumes gen: "gen_allreduce_inc R nodes k flowsize chunks f iterations window randseed = Inr ls"
    and w: "1 \<le> window" and n: "2 \<le> nodes"
    and rep: "replays T (flows_of ls)" and c: "0 \<le> c"
  shows "u \<in> set (chunk_flows UP r (c + int (Suc j) * window) (flows_of ls))
         \<Longrightarrow> begun_by T u now
         \<Longrightarrow> chunk_flows DOWN r c (flows_of ls) \<noteq> []
             \<and> done_by T (last (chunk_flows DOWN r c (flows_of ls))) now"
proof (induction j arbitrary: u)
  case 0
  from c have "window \<le> c + int (Suc 0) * window" by simp
  from window_step [OF gen w n rep "0.prems"(1) this "0.prems"(2)] show ?case by simp
next
  case (Suc j)
  from c w have "window \<le> c + int (Suc (Suc j)) * window"
    by (simp add: algebra_simps)
  from window_step [OF gen w n rep Suc.prems(1) this Suc.prems(2)]
  have ne: "chunk_flows DOWN r (c + int (Suc j) * window) (flows_of ls) \<noteq> []"
    and fin: "done_by T (last (chunk_flows DOWN r (c + int (Suc j) * window) (flows_of ls))) now"
    by (simp_all add: algebra_simps)
  from fan_step [OF gen rep ne fin] obtain u' where
    "u' \<in> set (chunk_flows UP r (c + int (Suc j) * window) (flows_of ls))" "begun_by T u' now"
    by blast
  then show ?case by (rule Suc.IH)
qed

lemma admitted_residues:
  assumes gen: "gen_allreduce_inc R nodes k flowsize chunks f iterations window randseed = Inr ls"
    and w: "1 \<le> window" and n: "2 \<le> nodes"
    and rep: "replays T (flows_of ls)" and c: "0 \<le> c" and lt: "c < c'"
    and res: "c mod window = c' mod window"
    and a: "admitted T (flows_of ls) r c now" and a': "admitted T (flows_of ls) r c' now"
  shows False
proof -
  from res [symmetric] have "window dvd c' - c" by (simp add: mod_eq_dvd_iff)
  then obtain q where q: "c' - c = window * q" by (auto simp: dvd_def)
  with lt w have "1 \<le> q" by (smt (verit) mult_le_0_iff)
  then have "int (Suc (nat q - 1)) = q" by simp
  with q have c': "c' = c + int (Suc (nat q - 1)) * window" by (simp add: algebra_simps)
  from a' obtain u where "u \<in> set (chunk_flows UP r c' (flows_of ls))" "begun_by T u now"
    unfolding admitted_def by blast
  then have "chunk_flows DOWN r c (flows_of ls) \<noteq> []
             \<and> done_by T (last (chunk_flows DOWN r c (flows_of ls))) now"
    unfolding c' by (rule window_chain [OF gen w n rep c])
  with a show False unfolding admitted_def by blast
qed

lemma at_most_window:
  assumes gen: "gen_allreduce_inc R nodes k flowsize chunks f iterations window randseed = Inr ls"
    and w: "1 \<le> window" and n: "2 \<le> nodes"
    and rep: "replays T (flows_of ls)"
  shows "length (filter (\<lambda>c. admitted T (flows_of ls) r c now) [0..chunks - 1]) \<le> nat window"
proof -
  define L where "L = filter (\<lambda>c. admitted T (flows_of ls) r c now) [0..chunks - 1]"
  have inj: "inj_on (\<lambda>c. c mod window) (set L)"
  proof (rule inj_onI)
    fix c c' assume "c \<in> set L" "c' \<in> set L" and res: "c mod window = c' mod window"
    then have c: "0 \<le> c" "admitted T (flows_of ls) r c now"
      and c': "0 \<le> c'" "admitted T (flows_of ls) r c' now" by (simp_all add: L_def)
    show "c = c'"
    proof (rule ccontr)
      assume "c \<noteq> c'"
      then consider "c < c'" | "c' < c" by linarith
      then show False
      proof cases
        case 1
        from admitted_residues [OF gen w n rep c(1) 1 res c(2) c'(2)] show False .
      next
        case 2
        from admitted_residues [OF gen w n rep c'(1) 2 res [symmetric] c'(2) c(2)] show False .
      qed
    qed
  qed
  have "(\<lambda>c. c mod window) ` set L \<subseteq> {0..window - 1}"
    using w by (auto simp: pos_mod_bound intro: order.strict_implies_order)
  then have "card ((\<lambda>c. c mod window) ` set L) \<le> card {0..window - 1}"
    by (intro card_mono) simp_all
  with inj have "card (set L) \<le> nat window" by (simp add: card_image)
  moreover have "distinct L" by (simp add: L_def)
  ultimately have "length L \<le> nat window" by (simp add: distinct_card)
  then show ?thesis by (simp add: L_def)
qed

section \<open>Downlink flows of a chunk\<close>

text \<open>
  C1, as stated, at \<open>nodes = 3\<close>, \<open>k = 2\<close>, one chunk, one iteration, \<open>window = 1\<close>: the
  two downlink flows of the chunk both wait for trigger 3, the completion trigger of the
  last uplink flow.  The first downlink attaches trigger 4, and nothing waits for it.
\<close>

theorem inc_downlinks_not_chained:
  "chunk_flows DOWN 1 0 (flows_of (lines_of (gen_allreduce_inc demo_random 3 2 100 1 7 1 1 0))) =
     [\<lparr>src = 0, dst = 1, fl_id = 3, start = Trigger 3, fsize = 100,
           send_done_trigger = Some 4, sem = Some \<lparr>agg_dir = DOWN, fid = 7, rid = 1, cid = 0\<rparr>\<rparr>,
      \<lparr>src = 0, dst = 2, fl_id = 4, start = Trigger 3, fsize = 100,
           send_done_trigger = Some 5, sem = Some \<lparr>agg_dir = DOWN, fid = 7, rid = 1, cid = 0\<rparr>\<rparr>]"
  by (simp add: inc_3_file lines_of_def chunk_flows_def is_chunk_flow_def)

text \<open>
  C1, amended.  In every completed run, the downlink flows of a chunk are not chained.
  A downlink flow waits for the completion trigger of the last uplink flow that carries
  its iteration and chunk, and every downlink flow of that chunk waits for this same
  trigger.  Each of them attaches a completion trigger of its own, which no other flow
  line of the file attaches and for which no downlink flow of the chunk waits.
\<close>

theorem inc_downlinks_gated_on_last_uplink:
  assumes "gen_allreduce_inc R nodes k flowsize chunks f iterations window randseed = Inr ls"
    and "d \<in> set (flows_of ls)" and "sem d = Some m" and "agg_dir m = DOWN"
  shows "chunk_flows UP (rid m) (cid m) (flows_of ls) \<noteq> []
     \<and> (\<exists>t. send_done_trigger (last (chunk_flows UP (rid m) (cid m) (flows_of ls))) = Some t
            \<and> start d = Trigger t
            \<and> (\<forall>d' \<in> set (chunk_flows DOWN (rid m) (cid m) (flows_of ls)).
                  start d' = Trigger t
                  \<and> (\<exists>t'. send_done_trigger d' = Some t'
                          \<and> (\<forall>x \<in> set (flows_of ls). send_done_trigger x = Some t' \<longrightarrow> x = d')
                          \<and> (\<forall>d'' \<in> set (chunk_flows DOWN (rid m) (cid m) (flows_of ls)).
                                start d'' \<noteq> Trigger t'))))"
proof -
  from inc_file_inv [OF assms(1)] have ord: "\<forall>g \<in> set (flows_of ls). gate_lt_done g"
    and fo: "fan_out (flows_of ls)" by simp_all
  from fo assms(2-4) obtain t where ne: "chunk_flows UP (rid m) (cid m) (flows_of ls) \<noteq> []"
    and t: "send_done_trigger (last (chunk_flows UP (rid m) (cid m) (flows_of ls))) = Some t"
      "start d = Trigger t"
    unfolding fan_out_def by blast
  have gate: "start d' = Trigger t"
    if "d' \<in> set (chunk_flows DOWN (rid m) (cid m) (flows_of ls))" for d'
  proof -
    from that have mem: "d' \<in> set (flows_of ls)" and "is_chunk_flow DOWN (rid m) (cid m) d'"
      by (simp_all add: chunk_flows_def)
    then obtain m' where m': "sem d' = Some m'" "agg_dir m' = DOWN" "rid m' = rid m"
      "cid m' = cid m" unfolding is_chunk_flow_iff by blast
    with fo mem t(1) show ?thesis unfolding fan_out_def by fastforce
  qed
  have "start d' = Trigger t
        \<and> (\<exists>t'. send_done_trigger d' = Some t'
                \<and> (\<forall>x \<in> set (flows_of ls). send_done_trigger x = Some t' \<longrightarrow> x = d')
                \<and> (\<forall>d'' \<in> set (chunk_flows DOWN (rid m) (cid m) (flows_of ls)).
                      start d'' \<noteq> Trigger t'))"
    if d': "d' \<in> set (chunk_flows DOWN (rid m) (cid m) (flows_of ls))" for d'
  proof -
    from d' have mem: "d' \<in> set (flows_of ls)" by (simp add: chunk_flows_def)
    from inc_file_own [OF assms(1) mem] obtain t' where t': "send_done_trigger d' = Some t'"
      and own: "\<forall>x \<in> set (flows_of ls). send_done_trigger x = Some t' \<longrightarrow> x = d'" by blast
    from ord mem have "gate_lt_done d'" by simp
    with gate [OF d'] t' have "t < t'" by (simp add: gate_lt_done_def)
    with gate have "\<forall>d'' \<in> set (chunk_flows DOWN (rid m) (cid m) (flows_of ls)).
                      start d'' \<noteq> Trigger t'" by simp
    with gate [OF d'] t' own show ?thesis by blast
  qed
  with ne t show ?thesis by blast
qed

theorem inc_downlinks_gated_on_last_uplink_witness:
  "gen_allreduce_inc demo_random 3 2 100 1 7 1 1 0 = Inr (lines_of (gen_allreduce_inc demo_random 3 2 100 1 7 1 1 0))
   \<and> flows_of (lines_of (gen_allreduce_inc demo_random 3 2 100 1 7 1 1 0)) ! 3 \<in> set (flows_of (lines_of (gen_allreduce_inc demo_random 3 2 100 1 7 1 1 0)))
   \<and> sem (flows_of (lines_of (gen_allreduce_inc demo_random 3 2 100 1 7 1 1 0)) ! 3) = Some \<lparr>agg_dir = DOWN, fid = 7, rid = 1, cid = 0\<rparr>
   \<and> agg_dir \<lparr>agg_dir = DOWN, fid = 7, rid = 1, cid = 0\<rparr> = DOWN
   \<and> chunk_flows UP 1 0 (flows_of (lines_of (gen_allreduce_inc demo_random 3 2 100 1 7 1 1 0))) \<noteq> []
   \<and> (\<exists>t. send_done_trigger (last (chunk_flows UP 1 0 (flows_of (lines_of (gen_allreduce_inc demo_random 3 2 100 1 7 1 1 0))))) = Some t
          \<and> start (flows_of (lines_of (gen_allreduce_inc demo_random 3 2 100 1 7 1 1 0)) ! 3) = Trigger t
          \<and> (\<forall>d' \<in> set (chunk_flows DOWN 1 0 (flows_of (lines_of (gen_allreduce_inc demo_random 3 2 100 1 7 1 1 0)))).
                start d' = Trigger t
                \<and> (\<exists>t'. send_done_trigger d' = Some t'
                        \<and> (\<forall>x \<in> set (flows_of (lines_of (gen_allreduce_inc demo_random 3 2 100 1 7 1 1 0))). send_done_trigger x = Some t' \<longrightarrow> x = d')
                        \<and> (\<forall>d'' \<in> set (chunk_flows DOWN 1 0 (flows_of (lines_of (gen_allreduce_inc demo_random 3 2 100 1 7 1 1 0)))).
                              start d'' \<noteq> Trigger t'))))"
proof -
  have run: "gen_allreduce_inc demo_random 3 2 100 1 7 1 1 0 = Inr (lines_of (gen_allreduce_inc demo_random 3 2 100 1 7 1 1 0))"
    by (simp add: inc_3_file lines_of_def)
  have mem: "flows_of (lines_of (gen_allreduce_inc demo_random 3 2 100 1 7 1 1 0)) ! 3 \<in> set (flows_of (lines_of (gen_allreduce_inc demo_random 3 2 100 1 7 1 1 0)))"
    by (simp add: inc_3_file lines_of_def)
  have sem: "sem (flows_of (lines_of (gen_allreduce_inc demo_random 3 2 100 1 7 1 1 0)) ! 3) = Some \<lparr>agg_dir = DOWN, fid = 7, rid = 1, cid = 0\<rparr>"
    by (simp add: inc_3_file lines_of_def)
  have dir: "agg_dir \<lparr>agg_dir = DOWN, fid = 7, rid = 1, cid = 0\<rparr> = DOWN" by simp
  have concl: "chunk_flows UP 1 0 (flows_of (lines_of (gen_allreduce_inc demo_random 3 2 100 1 7 1 1 0))) \<noteq> []
   \<and> (\<exists>t. send_done_trigger (last (chunk_flows UP 1 0 (flows_of (lines_of (gen_allreduce_inc demo_random 3 2 100 1 7 1 1 0))))) = Some t
          \<and> start (flows_of (lines_of (gen_allreduce_inc demo_random 3 2 100 1 7 1 1 0)) ! 3) = Trigger t
          \<and> (\<forall>d' \<in> set (chunk_flows DOWN 1 0 (flows_of (lines_of (gen_allreduce_inc demo_random 3 2 100 1 7 1 1 0)))).
                start d' = Trigger t
                \<and> (\<exists>t'. send_done_trigger d' = Some t'
                        \<and> (\<forall>x \<in> set (flows_of (lines_of (gen_allreduce_inc demo_random 3 2 100 1 7 1 1 0))). send_done_trigger x = Some t' \<longrightarrow> x = d')
                        \<and> (\<forall>d'' \<in> set (chunk_flows DOWN 1 0 (flows_of (lines_of (gen_allreduce_inc demo_random 3 2 100 1 7 1 1 0)))).
                              start d'' \<noteq> Trigger t'))))"
    using inc_downlinks_gated_on_last_uplink [OF run mem sem dir] by simp
  from concl have c1: "chunk_flows UP 1 0 (flows_of (lines_of (gen_allreduce_inc demo_random 3 2 100 1 7 1 1 0))) \<noteq> []" by (rule conjunct1)
  from concl have c2: "\<exists>t. send_done_trigger (last (chunk_flows UP 1 0 (flows_of (lines_of (gen_allreduce_inc demo_random 3 2 100 1 7 1 1 0))))) = Some t
          \<and> start (flows_of (lines_of (gen_allreduce_inc demo_random 3 2 100 1 7 1 1 0)) ! 3) = Trigger t
          \<and> (\<forall>d' \<in> set (chunk_flows DOWN 1 0 (flows_of (lines_of (gen_allreduce_inc demo_random 3 2 100 1 7 1 1 0)))).
                start d' = Trigger t
                \<and> (\<exists>t'. send_done_trigger d' = Some t'
                        \<and> (\<forall>x \<in> set (flows_of (lines_of (gen_allreduce_inc demo_random 3 2 100 1 7 1 1 0))). send_done_trigger x = Some t' \<longrightarrow> x = d')
                        \<and> (\<forall>d'' \<in> set (chunk_flows DOWN 1 0 (flows_of (lines_of (gen_allreduce_inc demo_random 3 2 100 1 7 1 1 0)))).
                              start d'' \<noteq> Trigger t')))" by (rule conjunct2)
  show ?thesis using run mem sem dir c1 c2 by (intro conjI) assumption+
qed

section \<open>Sliding window\<close>

text \<open>
  C8, as stated, fails in three places.  At \<open>nodes = 2\<close>, \<open>k = 2\<close>, one chunk, one
  iteration, \<open>window = 0\<close>: chunk 0 satisfies \<open>c \<ge> window\<close>, and its uplink flow is
  written with \<^verbatim>\<open>start 0\<close>; it waits for no trigger at all.  At \<open>nodes = 1\<close>, \<open>k = 4\<close>,
  two chunks, one iteration, \<open>window = 1\<close>: the only node is the aggregator of chunk 0,
  which therefore has no downlink flow, and the uplink flow of chunk 1 waits for trigger
  3, which no flow line attaches.  At \<open>nodes = 3\<close>, \<open>k = 2\<close>, two chunks, one iteration,
  \<open>window = 1\<close>: the uplink flows of chunk 1 wait for trigger 5, which the last downlink
  flow of chunk 0 attaches, and no flow waits for triggers 2 and 4, which the first
  uplink flow and the first downlink flow of chunk 0 attach.  So the file has a replay in
  which, at time 2, the first downlink flow of chunk 0 and both uplink flows of chunk 1
  are in transit: with \<open>window = 1\<close>, flows of two chunks are in transit at once.
\<close>

theorem inc_window_gate_missing:
  "chunk_flows UP 1 0 (flows_of (lines_of (gen_allreduce_inc demo_random 2 2 100 1 7 1 0 0))) =
     [\<lparr>src = 1, dst = 0, fl_id = 1, start = Start0, fsize = 100,
           send_done_trigger = Some 2, sem = Some \<lparr>agg_dir = UP, fid = 7, rid = 1, cid = 0\<rparr>\<rparr>]
   \<and> chunk_flows UP 1 1 (flows_of (lines_of (gen_allreduce_inc demo_random 1 4 100 2 7 1 1 0))) =
     [\<lparr>src = 0, dst = 1, fl_id = 1, start = Trigger 3, fsize = 100,
           send_done_trigger = Some 4, sem = Some \<lparr>agg_dir = UP, fid = 7, rid = 1, cid = 1\<rparr>\<rparr>]
   \<and> chunk_flows DOWN 1 0 (flows_of (lines_of (gen_allreduce_inc demo_random 1 4 100 2 7 1 1 0))) = []
   \<and> map send_done_trigger (flows_of (lines_of (gen_allreduce_inc demo_random 1 4 100 2 7 1 1 0)))
       = [Some 4, Some 5]
   \<and> map start (chunk_flows UP 1 1 (flows_of (lines_of (gen_allreduce_inc demo_random 3 2 100 2 7 1 1 0))))
       = [Trigger 5, Trigger 5]
   \<and> filter (\<lambda>x. start x = Trigger 2 \<or> start x = Trigger 4)
        (flows_of (lines_of (gen_allreduce_inc demo_random 3 2 100 2 7 1 1 0))) = []
   \<and> replays slow_replay (flows_of (lines_of (gen_allreduce_inc demo_random 3 2 100 2 7 1 1 0)))
   \<and> filter (\<lambda>x. begun_by slow_replay x 2 \<and> \<not> done_by slow_replay x 2)
        (flows_of (lines_of (gen_allreduce_inc demo_random 3 2 100 2 7 1 1 0))) =
     [\<lparr>src = 0, dst = 1, fl_id = 3, start = Trigger 3, fsize = 100,
           send_done_trigger = Some 4, sem = Some \<lparr>agg_dir = DOWN, fid = 7, rid = 1, cid = 0\<rparr>\<rparr>,
      \<lparr>src = 1, dst = 0, fl_id = 5, start = Trigger 5, fsize = 100,
           send_done_trigger = Some 6, sem = Some \<lparr>agg_dir = UP, fid = 7, rid = 1, cid = 1\<rparr>\<rparr>,
      \<lparr>src = 2, dst = 0, fl_id = 6, start = Trigger 5, fsize = 100,
           send_done_trigger = Some 7, sem = Some \<lparr>agg_dir = UP, fid = 7, rid = 1, cid = 1\<rparr>\<rparr>]"
proof -
  have a: "chunk_flows UP 1 0 (flows_of (lines_of (gen_allreduce_inc demo_random 2 2 100 1 7 1 0 0))) =
     [\<lparr>src = 1, dst = 0, fl_id = 1, start = Start0, fsize = 100,
           send_done_trigger = Some 2, sem = Some \<lparr>agg_dir = UP, fid = 7, rid = 1, cid = 0\<rparr>\<rparr>]"
    by (simp add: inc_window0_file lines_of_def chunk_flows_def is_chunk_flow_def)
  have b: "chunk_flows UP 1 1 (flows_of (lines_of (gen_allreduce_inc demo_random 1 4 100 2 7 1 1 0))) =
     [\<lparr>src = 0, dst = 1, fl_id = 1, start = Trigger 3, fsize = 100,
           send_done_trigger = Some 4, sem = Some \<lparr>agg_dir = UP, fid = 7, rid = 1, cid = 1\<rparr>\<rparr>]"
    by (simp add: inc_single_node_file lines_of_def chunk_flows_def is_chunk_flow_def)
  have c: "chunk_flows DOWN 1 0 (flows_of (lines_of (gen_allreduce_inc demo_random 1 4 100 2 7 1 1 0))) = []"
    by (simp add: inc_single_node_file lines_of_def chunk_flows_def is_chunk_flow_def)
  have d: "map send_done_trigger (flows_of (lines_of (gen_allreduce_inc demo_random 1 4 100 2 7 1 1 0)))
       = [Some 4, Some 5]"
    by (simp add: inc_single_node_file lines_of_def)
  have e: "map start (chunk_flows UP 1 1 (flows_of (lines_of (gen_allreduce_inc demo_random 3 2 100 2 7 1 1 0))))
       = [Trigger 5, Trigger 5]"
    by (simp add: inc_3_two_chunks_file lines_of_def chunk_flows_def is_chunk_flow_def)
  have f: "filter (\<lambda>x. start x = Trigger 2 \<or> start x = Trigger 4)
        (flows_of (lines_of (gen_allreduce_inc demo_random 3 2 100 2 7 1 1 0))) = []"
    by (simp add: inc_3_two_chunks_file lines_of_def)
  have g: "replays slow_replay (flows_of (lines_of (gen_allreduce_inc demo_random 3 2 100 2 7 1 1 0)))"
    by (simp add: inc_3_two_chunks_file lines_of_def replays_def done_by_def begun_by_def
        slow_replay_def)
  have h: "filter (\<lambda>x. begun_by slow_replay x 2 \<and> \<not> done_by slow_replay x 2)
        (flows_of (lines_of (gen_allreduce_inc demo_random 3 2 100 2 7 1 1 0))) =
     [\<lparr>src = 0, dst = 1, fl_id = 3, start = Trigger 3, fsize = 100,
           send_done_trigger = Some 4, sem = Some \<lparr>agg_dir = DOWN, fid = 7, rid = 1, cid = 0\<rparr>\<rparr>,
      \<lparr>src = 1, dst = 0, fl_id = 5, start = Trigger 5, fsize = 100,
           send_done_trigger = Some 6, sem = Some \<lparr>agg_dir = UP, fid = 7, rid = 1, cid = 1\<rparr>\<rparr>,
      \<lparr>src = 2, dst = 0, fl_id = 6, start = Trigger 5, fsize = 100,
           send_done_trigger = Some 7, sem = Some \<lparr>agg_dir = UP, fid = 7, rid = 1, cid = 1\<rparr>\<rparr>]"
    by (simp add: inc_3_two_chunks_file lines_of_def done_by_def begun_by_def slow_replay_def)
  show ?thesis using a b c d e f g h by (intro conjI) assumption+
qed

text \<open>
  C8, amended.  In every completed run with \<open>window \<ge> 1\<close> and at least two nodes, an
  uplink flow of a chunk \<open>c \<ge> window\<close> waits for the completion trigger of the last
  downlink flow of chunk \<open>c - window\<close> of the same iteration, and that chunk has a
  downlink flow.  So, in every replay of the file and at every time, at most \<open>window\<close>
  chunks of one iteration are admitted, a chunk being admitted from the start of its
  first uplink flow until the completion trigger of its last downlink flow fires.
\<close>

theorem inc_window_gating:
  assumes "gen_allreduce_inc R nodes k flowsize chunks f iterations window randseed = Inr ls"
    and "1 \<le> window" and "2 \<le> nodes"
  shows "(u \<in> set (flows_of ls) \<and> sem u = Some m \<and> agg_dir m = UP \<and> window \<le> cid m \<longrightarrow>
            chunk_flows DOWN (rid m) (cid m - window) (flows_of ls) \<noteq> []
            \<and> (\<exists>t. send_done_trigger (last (chunk_flows DOWN (rid m) (cid m - window) (flows_of ls)))
                     = Some t
                   \<and> start u = Trigger t))
         \<and> (replays T (flows_of ls) \<longrightarrow>
              length (filter (\<lambda>c. admitted T (flows_of ls) r c now) [0..chunks - 1]) \<le> nat window)"
proof (intro conjI impI)
  assume u: "u \<in> set (flows_of ls) \<and> sem u = Some m \<and> agg_dir m = UP \<and> window \<le> cid m"
  from inc_file_inv [OF assms(1)] assms(2,3) have wg: "window_gated window (flows_of ls)"
    and cc: "chunks_complete (flows_of ls)" by simp_all
  from assms(2) u have "0 \<le> cid m - window \<and> cid m - window < cid m" by simp
  with cc u show ne: "chunk_flows DOWN (rid m) (cid m - window) (flows_of ls) \<noteq> []"
    unfolding chunks_complete_def by blast
  with wg u show "\<exists>t. send_done_trigger (last (chunk_flows DOWN (rid m) (cid m - window) (flows_of ls)))
                     = Some t \<and> start u = Trigger t"
    unfolding window_gated_def by blast
next
  assume "replays T (flows_of ls)"
  with assms show "length (filter (\<lambda>c. admitted T (flows_of ls) r c now) [0..chunks - 1]) \<le> nat window"
    by (rule at_most_window)
qed

theorem inc_window_gating_witness:
  "gen_allreduce_inc demo_random 2 2 100 2 7 1 1 0 = Inr (lines_of (gen_allreduce_inc demo_random 2 2 100 2 7 1 1 0))
   \<and> (1::int) \<le> 1 \<and> (2::int) \<le> 2
   \<and> flows_of (lines_of (gen_allreduce_inc demo_random 2 2 100 2 7 1 1 0)) ! 2 \<in> set (flows_of (lines_of (gen_allreduce_inc demo_random 2 2 100 2 7 1 1 0)))
   \<and> sem (flows_of (lines_of (gen_allreduce_inc demo_random 2 2 100 2 7 1 1 0)) ! 2) = Some \<lparr>agg_dir = UP, fid = 7, rid = 1, cid = 1\<rparr>
   \<and> agg_dir \<lparr>agg_dir = UP, fid = 7, rid = 1, cid = 1\<rparr> = UP
   \<and> 1 \<le> cid \<lparr>agg_dir = UP, fid = 7, rid = 1, cid = 1\<rparr>
   \<and> chunk_flows DOWN 1 0 (flows_of (lines_of (gen_allreduce_inc demo_random 2 2 100 2 7 1 1 0))) \<noteq> []
   \<and> (\<exists>t. send_done_trigger (last (chunk_flows DOWN 1 0 (flows_of (lines_of (gen_allreduce_inc demo_random 2 2 100 2 7 1 1 0))))) = Some t
          \<and> start (flows_of (lines_of (gen_allreduce_inc demo_random 2 2 100 2 7 1 1 0)) ! 2) = Trigger t)
   \<and> replays demo_replay (flows_of (lines_of (gen_allreduce_inc demo_random 2 2 100 2 7 1 1 0)))
   \<and> admitted demo_replay (flows_of (lines_of (gen_allreduce_inc demo_random 2 2 100 2 7 1 1 0))) 1 1 3
   \<and> length (filter (\<lambda>c. admitted demo_replay (flows_of (lines_of (gen_allreduce_inc demo_random 2 2 100 2 7 1 1 0))) 1 c 3) [0..2 - 1]) \<le> nat 1"
proof -
  have run: "gen_allreduce_inc demo_random 2 2 100 2 7 1 1 0 = Inr (lines_of (gen_allreduce_inc demo_random 2 2 100 2 7 1 1 0))"
    by (simp add: inc_window1_file lines_of_def)
  have w: "(1::int) \<le> 1" by simp
  have n: "(2::int) \<le> 2" by simp
  have mem: "flows_of (lines_of (gen_allreduce_inc demo_random 2 2 100 2 7 1 1 0)) ! 2 \<in> set (flows_of (lines_of (gen_allreduce_inc demo_random 2 2 100 2 7 1 1 0)))"
    by (simp add: inc_window1_file lines_of_def)
  have sem: "sem (flows_of (lines_of (gen_allreduce_inc demo_random 2 2 100 2 7 1 1 0)) ! 2) = Some \<lparr>agg_dir = UP, fid = 7, rid = 1, cid = 1\<rparr>"
    by (simp add: inc_window1_file lines_of_def)
  have dir: "agg_dir \<lparr>agg_dir = UP, fid = 7, rid = 1, cid = 1\<rparr> = UP" by simp
  have c: "1 \<le> cid \<lparr>agg_dir = UP, fid = 7, rid = 1, cid = 1\<rparr>" by simp
  have rep: "replays demo_replay (flows_of (lines_of (gen_allreduce_inc demo_random 2 2 100 2 7 1 1 0)))"
    by (simp add: inc_window1_file lines_of_def replays_def done_by_def begun_by_def demo_replay_def)
  have adm: "admitted demo_replay (flows_of (lines_of (gen_allreduce_inc demo_random 2 2 100 2 7 1 1 0))) 1 1 3"
    by (simp add: inc_window1_file lines_of_def admitted_def done_by_def begun_by_def
        demo_replay_def chunk_flows_def is_chunk_flow_def)
  note inst = inc_window_gating [OF run w n,
      where u = "flows_of (lines_of (gen_allreduce_inc demo_random 2 2 100 2 7 1 1 0)) ! 2"
        and m = "\<lparr>agg_dir = UP, fid = 7, rid = 1, cid = 1\<rparr>" and T = demo_replay and r = 1
        and now = 3]
  from inst [THEN conjunct1, THEN mp, OF conjI [OF mem conjI [OF sem conjI [OF dir c]]]]
  have concl: "chunk_flows DOWN 1 0 (flows_of (lines_of (gen_allreduce_inc demo_random 2 2 100 2 7 1 1 0))) \<noteq> []
   \<and> (\<exists>t. send_done_trigger (last (chunk_flows DOWN 1 0 (flows_of (lines_of (gen_allreduce_inc demo_random 2 2 100 2 7 1 1 0))))) = Some t
          \<and> start (flows_of (lines_of (gen_allreduce_inc demo_random 2 2 100 2 7 1 1 0)) ! 2) = Trigger t)"
    by simp
  from concl have c1: "chunk_flows DOWN 1 0 (flows_of (lines_of (gen_allreduce_inc demo_random 2 2 100 2 7 1 1 0))) \<noteq> []" by (rule conjunct1)
  from concl have c2: "\<exists>t. send_done_trigger (last (chunk_flows DOWN 1 0 (flows_of (lines_of (gen_allreduce_inc demo_random 2 2 100 2 7 1 1 0))))) = Some t
          \<and> start (flows_of (lines_of (gen_allreduce_inc demo_random 2 2 100 2 7 1 1 0)) ! 2) = Trigger t" by (rule conjunct2)
  from inst [THEN conjunct2, THEN mp, OF rep]
  have c3: "length (filter (\<lambda>c. admitted demo_replay (flows_of (lines_of (gen_allreduce_inc demo_random 2 2 100 2 7 1 1 0))) 1 c 3) [0..2 - 1]) \<le> nat 1" .
  show ?thesis using run w n mem sem dir c c1 c2 rep adm c3 by (intro conjI) assumption+
qed

section \<open>Seeds and shuffling\<close>




section \<open>Ring: how many flows a phase writes\<close>

lemma for_each_emits:
  assumes "for_each body xs s = Inr s'"
    and "\<And>x t t'. x \<in> set xs \<Longrightarrow> body x t = Inr t' \<Longrightarrow> \<exists>p. fl t' = fl t @ p \<and> length p = k"
  shows "\<exists>p. fl s' = fl s @ p \<and> length p = k * length xs"
  using assms
proof (induction xs arbitrary: s)
  case Nil
  then show ?case by simp
next
  case (Cons x xs)
  from Cons.prems(1) obtain t where t: "body x s = Inr t" and rest: "for_each body xs t = Inr s'"
    by (auto split: sum.splits)
  from Cons.prems(2) [OF _ t] obtain p where p: "fl t = fl s @ p" "length p = k" by auto
  have "\<exists>q. fl s' = fl t @ q \<and> length q = k * length xs"
    using rest by (rule Cons.IH) (rule Cons.prems(2), simp_all)
  then obtain q where q: "fl s' = fl t @ q" "length q = k * length xs" by auto
  from p q have "fl s' = fl s @ (p @ q)" "length (p @ q) = k * length (x # xs)" by simp_all
  then show ?case by blast
qed

lemma for_each_total:
  assumes "\<And>x t. x \<in> set xs \<Longrightarrow> \<exists>t'. body x t = Inr t'"
  shows "\<exists>s'. for_each body xs s = Inr s'"
  using assms
proof (induction xs arbitrary: s)
  case Nil
  then show ?case by simp
next
  case (Cons x xs)
  from Cons.prems [of x s] obtain t where t: "body x s = Inr t" by auto
  have "\<exists>s'. for_each body xs t = Inr s'"
    by (rule Cons.IH) (rule Cons.prems, simp)
  then obtain s' where "for_each body xs t = Inr s'" by auto
  with t show ?case by simp
qed

lemma ring_reduce_step_emits:
  "ring_reduce_step groupsrcs groupsize flowsize s d st0 = Inr st1
     \<Longrightarrow> \<exists>p. flows_of (out st1) = flows_of (out st0) @ p \<and> length p = 1"
  by (auto simp: ring_reduce_step_def print_line_def Let_def split: sum.splits)

lemma ring_reduce_group_emits:
  assumes "ring_reduce_group srcs groupsize flowsize locality g st0 = Inr st1"
  shows "\<exists>p. flows_of (out st1) = flows_of (out st0) @ p
     \<and> length p = nat (groupsize - 1) * nat groupsize"
proof -
  from assms obtain gs st where
    loops: "for_each (\<lambda>s. for_each (ring_reduce_step (if locality = 1 then sort gs else gs)
                groupsize flowsize s) [1..groupsize - 1]) [0..groupsize - 1] st0 = Inr st"
    and st1: "st1 = st\<lparr>group_end_triggers := group_end_triggers st @ [trig_id st - 1]\<rparr>"
    by (auto simp: ring_reduce_group_def Let_def split: sum.splits)
  have "\<exists>p. flows_of (out st) = flows_of (out st0) @ p
      \<and> length p = (1 * length [1..groupsize - 1]) * length [0..groupsize - 1]"
    using loops
  proof (rule for_each_emits)
    fix s t t'
    assume "for_each (ring_reduce_step (if locality = 1 then sort gs else gs) groupsize
              flowsize s) [1..groupsize - 1] t = Inr t'"
    then show "\<exists>p. flows_of (out t') = flows_of (out t) @ p \<and> length p = 1 * length [1..groupsize - 1]"
      by (rule for_each_emits) (rule ring_reduce_step_emits)
  qed
  then show ?thesis by (simp add: st1 length_upto)
qed

lemma ring_phase1_emits:
  assumes "ring_phase1 srcs groups groupsize flowsize locality st0 = Inr st1"
  shows "\<exists>p. flows_of (out st1) = flows_of (out st0) @ p
     \<and> length p = nat (groupsize - 1) * nat groupsize * nat groups"
proof -
  have "\<exists>p. flows_of (out st1) = flows_of (out st0) @ p
     \<and> length p = (nat (groupsize - 1) * nat groupsize) * length [0..groups - 1]"
    using assms unfolding ring_phase1_def
    by (rule for_each_emits) (rule ring_reduce_group_emits)
  then show ?thesis by (simp add: length_upto)
qed

lemma ring_leader_emits:
  "ring_leader srcs groups groupsize flowsize g st0 = Inr st1
     \<Longrightarrow> \<exists>p. flows_of (out st1) = flows_of (out st0) @ p \<and> length p = 1"
  by (auto simp: ring_leader_def print_line_def split: sum.splits)

lemma ring_phase2_emits:
  assumes "ring_phase2 srcs groups groupsize flowsize st0 = Inr st1"
  shows "\<exists>p. flows_of (out st1) = flows_of (out st0) @ p \<and> length p = nat groups"
proof -
  have "\<exists>p. flows_of (out st1) = flows_of (out (st0\<lparr>leader_triggers := []\<rparr>)) @ p
     \<and> length p = 1 * length [0..groups - 1]"
    using assms unfolding ring_phase2_def
    by (rule for_each_emits) (rule ring_leader_emits)
  then show ?thesis by (simp add: length_upto)
qed

lemma ring_bcast_step_emits:
  "ring_bcast_step groupsrcs groupsize flowsize s p = Inr p'
     \<Longrightarrow> \<exists>q. flows_of (out (snd p')) = flows_of (out (snd p)) @ q \<and> length q = 1"
  by (cases p) (auto simp: ring_bcast_step_def print_line_def split: sum.splits if_splits)

lemma ring_bcast_group_emits:
  assumes "ring_bcast_group srcs groupsize flowsize g st0 = Inr st1"
  shows "\<exists>p. flows_of (out st1) = flows_of (out st0) @ p \<and> length p = nat (groupsize - 1)"
proof -
  from assms obtain groupsrcs t0 t1 where
    loop: "for_each (ring_bcast_step groupsrcs groupsize flowsize) [0..(groupsize - 1) - 1]
                 (t0, st0) = Inr (t1, st1)"
    by (auto simp: ring_bcast_group_def split: sum.splits prod.splits)
  have "\<exists>q. flows_of (out (snd (t1, st1))) = flows_of (out (snd (t0, st0))) @ q
      \<and> length q = 1 * length [0..(groupsize - 1) - 1]"
    using loop by (rule for_each_emits) (rule ring_bcast_step_emits)
  then show ?thesis by (simp add: length_upto)
qed

lemma ring_phase3_emits:
  assumes "ring_phase3 srcs groups groupsize flowsize st0 = Inr st1"
  shows "\<exists>p. flows_of (out st1) = flows_of (out st0) @ p
     \<and> length p = nat (groupsize - 1) * nat groups"
proof -
  have "\<exists>p. flows_of (out st1) = flows_of (out st0) @ p
     \<and> length p = nat (groupsize - 1) * length [0..groups - 1]"
    using assms unfolding ring_phase3_def
    by (rule for_each_emits) (rule ring_bcast_group_emits)
  then show ?thesis by (simp add: length_upto)
qed


lemma py_index_in_range:
  "0 \<le> i \<Longrightarrow> i < int (length xs) \<Longrightarrow> py_index xs i = Inr (xs ! nat i)"
  by (simp add: py_index_def)

lemma ring_reduce_step_total:
  assumes "length groupsrcs = nat groupsize" and "0 < groupsize"
  shows "\<exists>st1. ring_reduce_step groupsrcs groupsize flowsize s d st0 = Inr st1"
proof -
  have "0 \<le> (s + d - 1) mod groupsize" "(s + d - 1) mod groupsize < int (length groupsrcs)"
    "0 \<le> (s + d) mod groupsize" "(s + d) mod groupsize < int (length groupsrcs)"
    using assms by simp_all
  then show ?thesis
    by (simp add: ring_reduce_step_def py_index_in_range Let_def)
qed

lemma py_index_first_four:
  assumes "4 \<le> length srcs"
  shows "py_index srcs 0 = Inr (srcs ! 0)" "py_index srcs 1 = Inr (srcs ! 1)"
    "py_index srcs 2 = Inr (srcs ! 2)" "py_index srcs 3 = Inr (srcs ! 3)"
proof -
  from assms have "(0::int) < int (length srcs)" "(1::int) < int (length srcs)"
    "(2::int) < int (length srcs)" "(3::int) < int (length srcs)" by linarith+
  then show "py_index srcs 0 = Inr (srcs ! 0)" "py_index srcs 1 = Inr (srcs ! 1)"
    "py_index srcs 2 = Inr (srcs ! 2)" "py_index srcs 3 = Inr (srcs ! 3)"
    unfolding py_index_def by simp_all
qed

lemma group_srcs_first_of_four:
  assumes "4 \<le> length srcs"
  shows "\<exists>g4. group_srcs srcs 4 0 = Inr g4 \<and> length g4 = 4"
  by (simp add: group_srcs_def upto_small py_index_first_four [OF assms])

lemma ring_phase1_one_group_total:
  assumes "4 \<le> length srcs"
  shows "\<exists>s1. ring_phase1 srcs 1 4 flowsize locality s0 = Inr s1 \<and> group_end_triggers s1 \<noteq> []"
proof -
  from group_srcs_first_of_four [OF assms] obtain g4 where
    g4: "group_srcs srcs 4 0 = Inr g4" "length g4 = 4" by blast
  define gs where "gs = (if locality = 1 then sort g4 else g4)"
  have len: "length gs = nat 4" by (simp add: gs_def g4(2))
  have "\<exists>st. for_each (\<lambda>s. for_each (ring_reduce_step gs 4 flowsize s) [1..4 - 1])
      [0..4 - 1] s0 = Inr st"
  proof (rule for_each_total)
    fix s t
    show "\<exists>t'. for_each (ring_reduce_step gs 4 flowsize s) [1..4 - 1] t = Inr t'"
      by (rule for_each_total) (rule ring_reduce_step_total [OF len], simp)
  qed
  then obtain st where "for_each (\<lambda>s. for_each (ring_reduce_step gs 4 flowsize s) [1..4 - 1])
      [0..4 - 1] s0 = Inr st" by blast
  then have "ring_reduce_group srcs 4 flowsize locality 0 s0
      = Inr (st\<lparr>group_end_triggers := group_end_triggers st @ [trig_id st - 1]\<rparr>)"
    unfolding ring_reduce_group_def g4(1) gs_def [symmetric] by (simp add: Let_def gs_def)
  then show ?thesis by (simp add: ring_phase1_def upto_small)
qed

lemma ring_phase2_one_group_total:
  assumes "4 \<le> length srcs" and "group_end_triggers s1 \<noteq> []"
  shows "\<exists>s2. ring_phase2 srcs 1 4 flowsize s1 = Inr s2 \<and> leader_triggers s2 \<noteq> []"
proof -
  from assms(2) have "py_index (group_end_triggers s1) 0 = Inr (group_end_triggers s1 ! 0)"
    by (simp add: py_index_def)
  then show ?thesis
    by (simp add: ring_phase2_def ring_leader_def upto_small py_index_first_four [OF assms(1)])
qed

lemma ring_bcast_step_total:
  assumes "length groupsrcs = 4" and "s \<in> set [0..2]"
  shows "\<exists>p'. ring_bcast_step groupsrcs 4 flowsize s p = Inr p'"
  using assms by (cases p) (auto simp: ring_bcast_step_def py_index_def)

lemma ring_phase3_one_group_total:
  assumes "4 \<le> length srcs" and "leader_triggers s2 \<noteq> []"
  shows "\<exists>s3. ring_phase3 srcs 1 4 flowsize s2 = Inr s3"
proof -
  from group_srcs_first_of_four [OF assms(1)] obtain gs where
    gs: "group_srcs srcs 4 0 = Inr gs" "length gs = 4" by blast
  from gs(2) have first: "py_index gs 0 = Inr (gs ! 0)" by (simp add: py_index_def)
  from assms(2) have lt: "py_index (leader_triggers s2) 0 = Inr (leader_triggers s2 ! 0)"
    by (simp add: py_index_def)
  have "\<exists>p'. for_each (ring_bcast_step gs 4 flowsize) [0..(4 - 1) - 1]
      (leader_triggers s2 ! 0, s2) = Inr p'"
    by (rule for_each_total) (rule ring_bcast_step_total [OF gs(2)], simp)
  then obtain t1 s3 where "for_each (ring_bcast_step gs 4 flowsize) [0..(4 - 1) - 1]
      (leader_triggers s2 ! 0, s2) = Inr (t1, s3)" by (metis surj_pair)
  then have "ring_bcast_group srcs 4 flowsize 0 s2 = Inr s3"
    unfolding ring_bcast_group_def gs(1) by (simp add: first lt)
  then show ?thesis by (simp add: ring_phase3_def upto_small)
qed

section \<open>Ring scenario: one group of four\<close>

text \<open>
  C2, as stated, at \<open>nodes = 4\<close>, \<open>groups = 1\<close>, \<open>groupsize = 4\<close>, unshuffled order:
  phase 1 runs a chain of three flows from each of the four ring positions and writes
  twelve flow lines, not three.
\<close>

theorem ring_phase1_twelve_flows:
  "length (flows_after (ring_phase1 (ring_srcs demo_random 4 0) 1 4 100 0 (ring_init 4))) = 12"
  by (simp add: ring_defs upto_small flows_after_def)

text \<open>
  C2, amended.  With one group of size four and a node list of at least four entries,
  whatever the flow size, the locality flag and the state the phases start from, the
  three phases run to completion; phase 1 writes exactly twelve flow lines (four chains
  of three), phase 2 exactly one, phase 3 exactly three.
\<close>

theorem ring_one_group_of_four:
  assumes "4 \<le> length srcs"
  shows "\<exists>s1 s2 s3 r1 r2 r3.
     ring_phase1 srcs 1 4 flowsize locality s0 = Inr s1
     \<and> flows_of (out s1) = flows_of (out s0) @ r1 \<and> length r1 = 12
     \<and> ring_phase2 srcs 1 4 flowsize s1 = Inr s2
     \<and> flows_of (out s2) = flows_of (out s1) @ r2 \<and> length r2 = 1
     \<and> ring_phase3 srcs 1 4 flowsize s2 = Inr s3
     \<and> flows_of (out s3) = flows_of (out s2) @ r3 \<and> length r3 = 3"
proof -
  from ring_phase1_one_group_total [OF assms] obtain s1 where
    p1: "ring_phase1 srcs 1 4 flowsize locality s0 = Inr s1" and e: "group_end_triggers s1 \<noteq> []"
    by blast
  from ring_phase2_one_group_total [OF assms e] obtain s2 where
    p2: "ring_phase2 srcs 1 4 flowsize s1 = Inr s2" and l: "leader_triggers s2 \<noteq> []"
    by blast
  from ring_phase3_one_group_total [OF assms l] obtain s3 where
    p3: "ring_phase3 srcs 1 4 flowsize s2 = Inr s3" by blast
  from ring_phase1_emits [OF p1] obtain r1 where
    r1: "flows_of (out s1) = flows_of (out s0) @ r1" "length r1 = 12" by auto
  from ring_phase2_emits [OF p2] obtain r2 where
    r2: "flows_of (out s2) = flows_of (out s1) @ r2" "length r2 = 1" by auto
  from ring_phase3_emits [OF p3] obtain r3 where
    r3: "flows_of (out s3) = flows_of (out s2) @ r3" "length r3 = 3" by auto
  from p1 r1 p2 r2 p3 r3 show ?thesis by blast
qed

theorem ring_one_group_of_four_witness:
  "4 \<le> length (ring_srcs demo_random 4 0)
   \<and> (\<exists>s1 s2 s3 r1 r2 r3.
     ring_phase1 (ring_srcs demo_random 4 0) 1 4 100 0 (ring_init 4) = Inr s1
     \<and> flows_of (out s1) = flows_of (out (ring_init 4)) @ r1 \<and> length r1 = 12
     \<and> ring_phase2 (ring_srcs demo_random 4 0) 1 4 100 s1 = Inr s2
     \<and> flows_of (out s2) = flows_of (out s1) @ r2 \<and> length r2 = 1
     \<and> ring_phase3 (ring_srcs demo_random 4 0) 1 4 100 s2 = Inr s3
     \<and> flows_of (out s3) = flows_of (out s2) @ r3 \<and> length r3 = 3)"
proof -
  have len: "4 \<le> length (ring_srcs demo_random 4 0)"
    by (simp add: ring_srcs_def demo_random_def upto_small)
  from len ring_one_group_of_four [OF len, of 100 0 "ring_init 4"] show ?thesis
    by (rule conjI)
qed

section \<open>Header counts of the generators that count what they write\<close>

lemma connections_header_append [simp]:
  "connections_header (xs @ ys) = connections_header xs @ connections_header ys"
  by (induction xs rule: connections_header.induct) simp_all

lemma triggers_header_append [simp]:
  "triggers_header (xs @ ys) = triggers_header xs @ triggers_header ys"
  by (induction xs rule: triggers_header.induct) simp_all

lemma headers_of_trigger_section [simp]:
  "connections_header (trigger_section t) = []" "triggers_header (trigger_section t) = []"
proof -
  have "connections_header (map TriggerDef ts) = []" "triggers_header (map TriggerDef ts) = []"
    for ts by (induction ts) simp_all
  then show "connections_header (trigger_section t) = []" "triggers_header (trigger_section t) = []"
    by (simp_all add: trigger_section_def)
qed

lemma headers_of_insert_header:
  assumes "connections_header ls = []" and "triggers_header ls = []"
  shows "connections_header (insert_header c t ls) = [c]"
    and "triggers_header (insert_header c t ls) = [t]"
proof -
  have "connections_header (take 1 ls @ drop 1 ls) = []" "triggers_header (take 1 ls @ drop 1 ls) = []"
    using assms by simp_all
  then have "connections_header (take 1 ls) = []" "connections_header (drop 1 ls) = []"
    "triggers_header (take 1 ls) = []" "triggers_header (drop 1 ls) = []"
    by (simp_all only: connections_header_append triggers_header_append append_is_Nil_conv)
  then show "connections_header (insert_header c t ls) = [c]"
    and "triggers_header (insert_header c t ls) = [t]"
    by (simp_all add: insert_header_def)
qed

lemma conn_inv_file:
  assumes "conn_inv s" and "0 \<le> trig_id s"
    and "ls = insert_header (connections s) (int (length (trigger_section (trig_id s))))
                (out s @ extra @ trigger_section (trig_id s))"
    and "flows_of extra = []" "trigger_defs extra = []" "connections_header extra = []"
      "triggers_header extra = []"
  shows "connections_header ls = [int (length (flows_of ls))]
       \<and> triggers_header ls = [int (length (trigger_defs ls))]"
proof -
  have body: "connections_header (out s @ extra @ trigger_section (trig_id s)) = []"
    "triggers_header (out s @ extra @ trigger_section (trig_id s)) = []"
    using assms by (simp_all add: conn_inv_def)
  have "flows_of ls = flows_of (out s)" "trigger_defs ls = [1..trig_id s]"
    using assms by (simp_all add: conn_inv_def)
  with headers_of_insert_header [OF body] assms(1) show ?thesis
    unfolding assms(3) by (simp add: conn_inv_def trigger_section_def)
qed

lemma sn_iteration_conn:
  assumes "conn_inv s"
    and "sn_iteration regular_nodes supernode_id flowsize iterations iteration s = Inr s'"
  shows "conn_inv s'"
proof -
  have p1: "conn_inv t \<Longrightarrow> conn_inv (sn_phase1_send supernode_id flowsize iteration p t)" for p t
    by (cases p) (simp add: conn_inv_def sn_phase1_send_def print_line_def Let_def)
  have p2: "conn_inv t \<Longrightarrow>
      conn_inv (sn_phase2_send supernode_id flowsize iterations iteration len p t)" for p t len
    by (cases p) (simp add: conn_inv_def sn_phase2_send_def print_line_def Let_def)
  define s1 where "s1 = fold (sn_phase1_send supernode_id flowsize iteration)
      (List.enumerate 0 regular_nodes) (s\<lparr>phase1_send_done_triggers := []\<rparr>)"
  have "conn_inv (s\<lparr>phase1_send_done_triggers := []\<rparr>)" using assms(1) by (simp add: conn_inv_def)
  then have "conn_inv s1" unfolding s1_def by (rule fold_inv) (rule p1)
  then have start: "conn_inv (s1\<lparr>phase2_trigger := Some t\<rparr>)" for t by (simp add: conn_inv_def)
  have "conn_inv (fold (sn_phase2_send supernode_id flowsize iterations iteration
          (length regular_nodes)) (List.enumerate 0 regular_nodes) (s1\<lparr>phase2_trigger := Some t\<rparr>))"
    for t using start by (rule fold_inv) (rule p2)
  with assms(2) show ?thesis
    by (auto simp: sn_iteration_def Let_def s1_def conn_inv_def split: sum.splits)
qed

lemma sn_header_counts:
  assumes "gen_allreduce_supernode R nodes flowsize iterations randseed = Inr ls"
  shows "connections_header ls = [int (length (flows_of ls))]
       \<and> triggers_header ls = [int (length (trigger_defs ls))]"
proof -
  from assms obtain s where run: "sn_run (sn_regular_nodes R nodes randseed) nodes flowsize iterations = Inr s"
    and ls: "ls = insert_header (connections s) (int (length (trigger_section (trig_id s))))
                    (out s @ [] @ trigger_section (trig_id s))"
    by (auto simp: gen_allreduce_supernode_def Let_def split: sum.splits)
  have "conn_inv (sn_init nodes)" by (simp add: conn_inv_def sn_init_def)
  with run have "conn_inv s"
    unfolding sn_run_def by (rule for_each_inv) (rule sn_iteration_conn)
  moreover from sn_run_inv [OF run] have "0 \<le> trig_id s" by (simp add: sn_inv_def)
  ultimately show ?thesis using ls by (rule conn_inv_file) simp_all
qed


lemma inc_chunk_conn:
  assumes "conn_inv s" and "inc_chunk hosts aggs flowsize f window r c s = Inr s'"
  shows "conn_inv s'"
proof -
  have up: "conn_inv t \<Longrightarrow> conn_inv (inc_uplink dst_agg v flowsize f r c h t)" for dst_agg v h t
    by (simp add: conn_inv_def inc_uplink_def print_line_def)
  have down: "conn_inv t \<Longrightarrow> conn_inv (inc_downlink dst_agg flowsize f r c h t)" for dst_agg h t
    by (simp add: conn_inv_def inc_downlink_def print_line_def)
  have ens: "conn_inv t \<Longrightarrow> conn_inv (ensure_upload_trig t)" for t
    by (simp add: conn_inv_def ensure_upload_trig_def)
  have rec: "conn_inv t \<Longrightarrow> conn_inv (record_down_trig c t)" for t
    by (simp add: conn_inv_def record_down_trig_def split: option.splits)
  from assms(2) obtain v dst_agg where
    s': "s' = record_down_trig c (fold (inc_downlink dst_agg flowsize f r c) hosts
            ((ensure_upload_trig (fold (inc_uplink dst_agg v flowsize f r c) hosts
                (s\<lparr>last_upload_trig := None\<rparr>)))\<lparr>last_down_trig := None\<rparr>))"
    by (auto simp: inc_chunk_def Let_def split: sum.splits)
  have "conn_inv (s\<lparr>last_upload_trig := None\<rparr>)" using assms(1) by (simp add: conn_inv_def)
  then have "conn_inv (fold (inc_uplink dst_agg v flowsize f r c) hosts
      (s\<lparr>last_upload_trig := None\<rparr>))" by (rule fold_inv) (rule up)
  then have "conn_inv (ensure_upload_trig (fold (inc_uplink dst_agg v flowsize f r c) hosts
      (s\<lparr>last_upload_trig := None\<rparr>)))" by (rule ens)
  then have "conn_inv ((ensure_upload_trig (fold (inc_uplink dst_agg v flowsize f r c) hosts
      (s\<lparr>last_upload_trig := None\<rparr>)))\<lparr>last_down_trig := None\<rparr>)" by (simp add: conn_inv_def)
  then have "conn_inv (fold (inc_downlink dst_agg flowsize f r c) hosts
            ((ensure_upload_trig (fold (inc_uplink dst_agg v flowsize f r c) hosts
                (s\<lparr>last_upload_trig := None\<rparr>)))\<lparr>last_down_trig := None\<rparr>))"
    by (rule fold_inv) (rule down)
  then show ?thesis unfolding s' by (rule rec)
qed

lemma inc_iteration_conn:
  assumes "conn_inv s" and "inc_iteration hosts aggs flowsize chunks f window it s = Inr s'"
  shows "conn_inv s'"
proof -
  from assms(2) obtain sc t where
    loop: "for_each (inc_chunk hosts aggs flowsize f window (it + 1)) [0..chunks - 1]
             (print_line (IterationComment (it + 1)) (print_line Blank s)) = Inr sc"
    and s': "s' = sc\<lparr>iteration_start_trigger := Some t\<rparr>"
    by (auto simp: inc_iteration_def Let_def split: sum.splits)
  have "conn_inv (print_line (IterationComment (it + 1)) (print_line Blank s))"
    using assms(1) by (simp add: conn_inv_def print_line_def)
  with loop have "conn_inv sc" by (rule for_each_inv) (rule inc_chunk_conn)
  then show ?thesis unfolding s' by (simp add: conn_inv_def)
qed

lemma inc_header_counts:
  assumes "gen_allreduce_inc R nodes k flowsize chunks f iterations window randseed = Inr ls"
  shows "connections_header ls = [int (length (flows_of ls))]
       \<and> triggers_header ls = [int (length (trigger_defs ls))]"
proof -
  from assms obtain s where run: "inc_run nodes k flowsize chunks f iterations window = Inr s"
    and ls: "ls = insert_header (connections s) (trig_id s)
                 (out s @ [Blank, Comment ''# --- TRIGGERS ---''] @ trigger_section (trig_id s))"
    by (auto simp: gen_allreduce_inc_def Let_def split: sum.splits)
  have "conn_inv (inc_init nodes chunks)" by (simp add: conn_inv_def inc_init_def)
  with run have inv: "conn_inv s"
    unfolding inc_run_def by (rule for_each_inv) (rule inc_iteration_conn)
  from inc_run_inv [OF run] have pos: "0 \<le> trig_id s" by (simp add: inc_inv_def)
  then have "trig_id s = int (length (trigger_section (trig_id s)))"
    by (simp add: trigger_section_def)
  with ls have ls': "ls = insert_header (connections s) (int (length (trigger_section (trig_id s))))
                 (out s @ [Blank, Comment ''# --- TRIGGERS ---''] @ trigger_section (trig_id s))"
    by simp
  from inv pos ls' show ?thesis by (rule conn_inv_file) simp_all
qed

lemma ring_run_conn:
  assumes "ring_run srcs nodes groups groupsize flowsize locality = Inr s"
  shows "conn_inv s"
proof -
  have step1: "conn_inv t \<Longrightarrow> ring_reduce_step gs groupsize flowsize a d t = Inr t' \<Longrightarrow> conn_inv t'"
    for gs a d t t'
    by (auto simp: conn_inv_def ring_reduce_step_def print_line_def Let_def split: sum.splits)
  have group1: "conn_inv t \<Longrightarrow> ring_reduce_group srcs groupsize flowsize locality g t = Inr t'
      \<Longrightarrow> conn_inv t'" for g t t'
  proof -
    assume t: "conn_inv t" and run: "ring_reduce_group srcs groupsize flowsize locality g t = Inr t'"
    from run obtain gs st where
      loops: "for_each (\<lambda>s. for_each (ring_reduce_step (if locality = 1 then sort gs else gs)
                groupsize flowsize s) [1..groupsize - 1]) [0..groupsize - 1] t = Inr st"
      and t': "t' = st\<lparr>group_end_triggers := group_end_triggers st @ [trig_id st - 1]\<rparr>"
      by (auto simp: ring_reduce_group_def Let_def split: sum.splits)
    have "conn_inv st" using loops t
    proof (rule for_each_inv)
      fix a u u'
      assume "conn_inv u" and "for_each (ring_reduce_step (if locality = 1 then sort gs else gs)
          groupsize flowsize a) [1..groupsize - 1] u = Inr u'"
      from this(2,1) show "conn_inv u'" by (rule for_each_inv) (rule step1)
    qed
    then show "conn_inv t'" unfolding t' by (simp add: conn_inv_def)
  qed
  have leader: "conn_inv t \<Longrightarrow> ring_leader srcs groups groupsize flowsize g t = Inr t'
      \<Longrightarrow> conn_inv t'" for g t t'
    by (auto simp: conn_inv_def ring_leader_def print_line_def split: sum.splits)
  have step3: "conn_inv (snd p) \<Longrightarrow> ring_bcast_step gs groupsize flowsize a p = Inr p'
      \<Longrightarrow> conn_inv (snd p')" for gs a p p'
    by (cases p)
       (auto simp: conn_inv_def ring_bcast_step_def print_line_def split: sum.splits if_splits)
  have group3: "conn_inv t \<Longrightarrow> ring_bcast_group srcs groupsize flowsize g t = Inr t'
      \<Longrightarrow> conn_inv t'" for g t t'
  proof -
    assume t: "conn_inv t" and run: "ring_bcast_group srcs groupsize flowsize g t = Inr t'"
    from run obtain gs t0 t1 where
      loop: "for_each (ring_bcast_step gs groupsize flowsize) [0..(groupsize - 1) - 1]
                 (t0, t) = Inr (t1, t')"
      by (auto simp: ring_bcast_group_def split: sum.splits prod.splits)
    from t have "conn_inv (snd (t0, t))" by simp
    with loop have "conn_inv (snd (t1, t'))" by (rule for_each_inv) (rule step3)
    then show "conn_inv t'" by simp
  qed
  from assms obtain s1 s2 where
    p1: "ring_phase1 srcs groups groupsize flowsize locality (ring_init nodes) = Inr s1"
    and p2: "ring_phase2 srcs groups groupsize flowsize s1 = Inr s2"
    and p3: "ring_phase3 srcs groups groupsize flowsize s2 = Inr s"
    by (auto simp: ring_run_def split: sum.splits)
  have "conn_inv (ring_init nodes)" by (simp add: conn_inv_def ring_init_def)
  with p1 have "conn_inv s1" unfolding ring_phase1_def by (rule for_each_inv) (rule group1)
  then have "conn_inv (s1\<lparr>leader_triggers := []\<rparr>)" by (simp add: conn_inv_def)
  with p2 have "conn_inv s2" unfolding ring_phase2_def by (rule for_each_inv) (rule leader)
  with p3 show ?thesis unfolding ring_phase3_def by (rule for_each_inv) (rule group3)
qed

lemma ring_trig_id_pos:
  assumes "ring_run srcs nodes groups groupsize flowsize locality = Inr s"
  shows "1 \<le> trig_id s"
proof -
  have step1: "1 \<le> trig_id t \<Longrightarrow> ring_reduce_step gs groupsize flowsize a d t = Inr t'
      \<Longrightarrow> 1 \<le> trig_id t'" for gs a d t t'
    by (auto simp: ring_reduce_step_def print_line_def Let_def split: sum.splits if_splits)
  have group1: "1 \<le> trig_id t \<Longrightarrow> ring_reduce_group srcs groupsize flowsize locality g t = Inr t'
      \<Longrightarrow> 1 \<le> trig_id t'" for g t t'
  proof -
    assume t: "1 \<le> trig_id t" and run: "ring_reduce_group srcs groupsize flowsize locality g t = Inr t'"
    from run obtain gs st where
      loops: "for_each (\<lambda>s. for_each (ring_reduce_step (if locality = 1 then sort gs else gs)
                groupsize flowsize s) [1..groupsize - 1]) [0..groupsize - 1] t = Inr st"
      and t': "t' = st\<lparr>group_end_triggers := group_end_triggers st @ [trig_id st - 1]\<rparr>"
      by (auto simp: ring_reduce_group_def Let_def split: sum.splits)
    have "1 \<le> trig_id st" using loops t
    proof (rule for_each_inv)
      fix a u u'
      assume "1 \<le> trig_id u" and "for_each (ring_reduce_step (if locality = 1 then sort gs else gs)
          groupsize flowsize a) [1..groupsize - 1] u = Inr u'"
      from this(2,1) show "1 \<le> trig_id u'" by (rule for_each_inv) (rule step1)
    qed
    then show "1 \<le> trig_id t'" unfolding t' by simp
  qed
  have leader: "1 \<le> trig_id t \<Longrightarrow> ring_leader srcs groups groupsize flowsize g t = Inr t'
      \<Longrightarrow> 1 \<le> trig_id t'" for g t t'
    by (auto simp: ring_leader_def print_line_def split: sum.splits)
  have step3: "1 \<le> trig_id (snd p) \<Longrightarrow> ring_bcast_step gs groupsize flowsize a p = Inr p'
      \<Longrightarrow> 1 \<le> trig_id (snd p')" for gs a p p'
    by (cases p) (auto simp: ring_bcast_step_def print_line_def split: sum.splits if_splits)
  have group3: "1 \<le> trig_id t \<Longrightarrow> ring_bcast_group srcs groupsize flowsize g t = Inr t'
      \<Longrightarrow> 1 \<le> trig_id t'" for g t t'
  proof -
    assume t: "1 \<le> trig_id t" and run: "ring_bcast_group srcs groupsize flowsize g t = Inr t'"
    from run obtain gs t0 t1 where
      loop: "for_each (ring_bcast_step gs groupsize flowsize) [0..(groupsize - 1) - 1]
                 (t0, t) = Inr (t1, t')"
      by (auto simp: ring_bcast_group_def split: sum.splits prod.splits)
    from t have "1 \<le> trig_id (snd (t0, t))" by simp
    with loop have "1 \<le> trig_id (snd (t1, t'))" by (rule for_each_inv) (rule step3)
    then show "1 \<le> trig_id t'" by simp
  qed
  from assms obtain s1 s2 where
    p1: "ring_phase1 srcs groups groupsize flowsize locality (ring_init nodes) = Inr s1"
    and p2: "ring_phase2 srcs groups groupsize flowsize s1 = Inr s2"
    and p3: "ring_phase3 srcs groups groupsize flowsize s2 = Inr s"
    by (auto simp: ring_run_def split: sum.splits)
  have "1 \<le> trig_id (ring_init nodes)" by (simp add: ring_init_def)
  with p1 have "1 \<le> trig_id s1" unfolding ring_phase1_def by (rule for_each_inv) (rule group1)
  then have "1 \<le> trig_id (s1\<lparr>leader_triggers := []\<rparr>)" by simp
  with p2 have "1 \<le> trig_id s2" unfolding ring_phase2_def by (rule for_each_inv) (rule leader)
  with p3 show ?thesis unfolding ring_phase3_def by (rule for_each_inv) (rule group3)
qed

lemma ring_header_counts:
  assumes "gen_allreduce_ring R nodes conns groupsize flowsize locality randseed = Inr ls"
  shows "connections_header ls = [int (length (flows_of ls))]
       \<and> triggers_header ls = [int (length (trigger_defs ls))]"
proof -
  from assms obtain s where
    run: "ring_run (ring_srcs R nodes randseed) nodes (conns div groupsize) groupsize flowsize
            locality = Inr s"
    and ls: "ls = insert_header (connections s) (int (length (trigger_section (trig_id s))))
                    (out s @ [] @ trigger_section (trig_id s))"
    by (auto simp: gen_allreduce_ring_def Let_def split: sum.splits if_splits)
  from ring_trig_id_pos [OF run] have "0 \<le> trig_id s" by simp
  with ring_run_conn [OF run] show ?thesis using ls by (rule conn_inv_file) simp_all
qed

text \<open>
  The three generators that count what they write announce the right numbers in every
  completed run; the Tree generator (C4) is the one whose header is a formula.
\<close>

lemma counted_headers:
  "(gen_allreduce_ring R nodes conns groupsize flowsize locality randseed = Inr ls
      \<longrightarrow> connections_header ls = [int (length (flows_of ls))]
          \<and> triggers_header ls = [int (length (trigger_defs ls))])
   \<and> (gen_allreduce_supernode R nodes flowsize iterations randseed = Inr ls
      \<longrightarrow> connections_header ls = [int (length (flows_of ls))]
          \<and> triggers_header ls = [int (length (trigger_defs ls))])
   \<and> (gen_allreduce_inc R nodes k flowsize chunks f iterations window randseed = Inr ls
      \<longrightarrow> connections_header ls = [int (length (flows_of ls))]
          \<and> triggers_header ls = [int (length (trigger_defs ls))])"
  by (rule conjI, rule impI, erule ring_header_counts, rule conjI, rule impI,
      erule sn_header_counts, rule impI, erule inc_header_counts)

section \<open>Ring: the last reduction flow of a group\<close>

lemma for_each_snoc:
  "for_each body (xs @ [x]) s =
     (case for_each body xs s of Inl e \<Rightarrow> Inl e | Inr t \<Rightarrow> body x t)"
  by (induction xs arbitrary: s) (auto split: sum.splits)

text \<open>
  In a ring of at least two nodes the last flow that phase 1 writes for the group is step
  \<open>groupsize - 1\<close> of the chain that starts at the last position.  It is written without
  a \<^verbatim>\<open>send_done_trigger\<close>, and the trigger recorded for the group is \<^verbatim>\<open>trig_id - 1\<close>.
\<close>

lemma ring_reduce_group_last_flow:
  assumes big: "2 \<le> groupsize"
    and run: "ring_reduce_group srcs groupsize flowsize locality g st0 = Inr st1"
  shows "flows_of (out st1) \<noteq> [] \<and> send_done_trigger (last (flows_of (out st1))) = None
     \<and> group_end_triggers st1 = group_end_triggers st0 @ [trig_id st1 - 1]"
proof -
  from run obtain gs st where
    loops: "for_each (\<lambda>s. for_each (ring_reduce_step (if locality = 1 then sort gs else gs)
                groupsize flowsize s) [1..groupsize - 1]) [0..groupsize - 1] st0 = Inr st"
    and st1: "st1 = st\<lparr>group_end_triggers := group_end_triggers st @ [trig_id st - 1]\<rparr>"
    by (auto simp: ring_reduce_group_def Let_def split: sum.splits)
  define groupsrcs where "groupsrcs = (if locality = 1 then sort gs else gs)"
  have outer: "[0..groupsize - 1] = [0..groupsize - 1 - 1] @ [groupsize - 1]"
    using big by (intro upto_rec2) simp
  have inner: "[1..groupsize - 1] = [1..groupsize - 1 - 1] @ [groupsize - 1]"
    using big by (intro upto_rec2) simp
  from loops obtain t where
    before: "for_each (\<lambda>s. for_each (ring_reduce_step groupsrcs groupsize flowsize s)
                [1..groupsize - 1]) [0..groupsize - 1 - 1] st0 = Inr t"
    and chain: "for_each (ring_reduce_step groupsrcs groupsize flowsize (groupsize - 1))
                [1..groupsize - 1] t = Inr st"
    unfolding groupsrcs_def [symmetric]
    by (subst (asm) outer) (auto simp: for_each_snoc split: sum.splits)
  from chain obtain t' where
    step: "ring_reduce_step groupsrcs groupsize flowsize (groupsize - 1) (groupsize - 1) t' = Inr st"
    by (subst (asm) inner) (auto simp: for_each_snoc split: sum.splits)
  then obtain fl where "flows_of (out st) = flows_of (out t') @ [fl]" "send_done_trigger fl = None"
    by (auto simp: ring_reduce_step_def print_line_def Let_def split: sum.splits)
  then have "flows_of (out st) \<noteq> []" "send_done_trigger (last (flows_of (out st))) = None"
    by simp_all
  have keep: "group_end_triggers u' = group_end_triggers u"
    if "ring_reduce_step groupsrcs groupsize flowsize a d u = Inr u'" for a d u u'
    using that by (auto simp: ring_reduce_step_def print_line_def Let_def split: sum.splits)
  have "group_end_triggers st = group_end_triggers st0"
    using loops unfolding groupsrcs_def [symmetric]
  proof (rule for_each_inv [where P = "\<lambda>u. group_end_triggers u = group_end_triggers st0"])
    fix a u u'
    assume u: "group_end_triggers u = group_end_triggers st0"
      and "for_each (ring_reduce_step groupsrcs groupsize flowsize a) [1..groupsize - 1] u = Inr u'"
    from this(2) u show "group_end_triggers u' = group_end_triggers st0"
      by (rule for_each_inv) (simp add: keep)
  qed simp
  with \<open>flows_of (out st) \<noteq> []\<close> \<open>send_done_trigger (last (flows_of (out st))) = None\<close>
  show ?thesis by (simp add: st1)
qed

section \<open>Structural closure of the Tree, Supernode and IncHierarchical files\<close>

lemma count_list_upto: "count_list [a..b] x = (if a \<le> x \<and> x \<le> b then 1 else 0)"
proof (induction "nat (b + 1 - a)" arbitrary: a)
  case 0
  then show ?case by simp
next
  case (Suc n)
  then have "a \<le> b" by simp
  then have split: "[a..b] = a # [a + 1..b]" by (rule upto_rec1)
  from Suc.hyps(2) have "n = nat (b + 1 - (a + 1))" by simp
  from Suc.hyps(1) [OF this] show ?case unfolding split using \<open>a \<le> b\<close> by auto
qed

lemma closed_refs_from_bounds:
  assumes "trigger_defs ls = [1..t]"
    and "\<forall>f \<in> set (flows_of ls). refs_from 1 f \<and> refs_below (t + 1) f"
  shows "closed_refs ls"
  unfolding closed_refs_def assms(1) count_list_upto
  using assms(2) by (fastforce simp: refs_from_def refs_below_def)

lemma refs_from_weaken: "refs_from a f \<Longrightarrow> b \<le> a \<Longrightarrow> refs_from b f"
  by (auto simp: refs_from_def)

subsection \<open>Supernode\<close>

lemma sn_phase1_send_issued:
  "sn_inv s \<and> refs_issued s \<Longrightarrow>
   sn_inv (sn_phase1_send supernode_id flowsize iteration p s)
   \<and> refs_issued (sn_phase1_send supernode_id flowsize iteration p s)"
proof
  assume a: "sn_inv s \<and> refs_issued s"
  then show "sn_inv (sn_phase1_send supernode_id flowsize iteration p s)"
    by (simp add: sn_phase1_send_inv)
  from a show "refs_issued (sn_phase1_send supernode_id flowsize iteration p s)"
    by (cases p)
       (fastforce simp: sn_inv_def refs_issued_def refs_below_def sn_phase1_send_def
          print_line_def issued_def trigger_str_def Let_def split: option.splits)
qed

lemma sn_phase2_send_issued:
  "sn_inv s \<and> refs_issued s \<Longrightarrow>
   sn_inv (sn_phase2_send supernode_id flowsize iterations iteration len p s)
   \<and> refs_issued (sn_phase2_send supernode_id flowsize iterations iteration len p s)"
proof
  assume a: "sn_inv s \<and> refs_issued s"
  then show "sn_inv (sn_phase2_send supernode_id flowsize iterations iteration len p s)"
    by (simp add: sn_phase2_send_inv)
  from a show "refs_issued (sn_phase2_send supernode_id flowsize iterations iteration len p s)"
    by (cases p)
       (fastforce simp: sn_inv_def refs_issued_def refs_below_def sn_phase2_send_def
          print_line_def issued_def trigger_str_def Let_def split: option.splits)
qed

lemma sn_iteration_issued:
  assumes "sn_inv s \<and> refs_issued s"
    and "sn_iteration regular_nodes supernode_id flowsize iterations iteration s = Inr s'"
  shows "sn_inv s' \<and> refs_issued s'"
proof -
  define s1 where "s1 = fold (sn_phase1_send supernode_id flowsize iteration)
      (List.enumerate 0 regular_nodes) (s\<lparr>phase1_send_done_triggers := []\<rparr>)"
  have "sn_inv (s\<lparr>phase1_send_done_triggers := []\<rparr>) \<and> refs_issued (s\<lparr>phase1_send_done_triggers := []\<rparr>)"
    using assms(1) by (simp add: sn_inv_def refs_issued_def)
  then have inv1: "sn_inv s1 \<and> refs_issued s1"
    unfolding s1_def by (rule fold_inv) (rule sn_phase1_send_issued)
  from assms(2) obtain t where t: "py_index (phase1_send_done_triggers s1) (- 1) = Inr t"
    and s': "s' = (fold (sn_phase2_send supernode_id flowsize iterations iteration
                      (length regular_nodes)) (List.enumerate 0 regular_nodes)
                    (s1\<lparr>phase2_trigger := Some t\<rparr>))
               \<lparr>next_iteration_trigger := phase2_trigger
                  (fold (sn_phase2_send supernode_id flowsize iterations iteration
                      (length regular_nodes)) (List.enumerate 0 regular_nodes)
                    (s1\<lparr>phase2_trigger := Some t\<rparr>))\<rparr>"
    by (auto simp: sn_iteration_def s1_def Let_def split: sum.splits)
  from py_index_mem [OF t] inv1
  have "sn_inv (s1\<lparr>phase2_trigger := Some t\<rparr>) \<and> refs_issued (s1\<lparr>phase2_trigger := Some t\<rparr>)"
    by (simp add: sn_inv_def issued_def refs_issued_def)
  then have "sn_inv (fold (sn_phase2_send supernode_id flowsize iterations iteration
                      (length regular_nodes)) (List.enumerate 0 regular_nodes)
                    (s1\<lparr>phase2_trigger := Some t\<rparr>))
      \<and> refs_issued (fold (sn_phase2_send supernode_id flowsize iterations iteration
                      (length regular_nodes)) (List.enumerate 0 regular_nodes)
                    (s1\<lparr>phase2_trigger := Some t\<rparr>))"
    by (rule fold_inv) (rule sn_phase2_send_issued)
  then show ?thesis unfolding s' by (simp add: sn_inv_def refs_issued_def)
qed

lemma sn_closed_refs:
  assumes "gen_allreduce_supernode R nodes flowsize iterations randseed = Inr ls"
  shows "closed_refs ls"
proof -
  from assms obtain s where run: "sn_run (sn_regular_nodes R nodes randseed) nodes flowsize iterations = Inr s"
    and ls: "ls = insert_header (connections s) (int (length (trigger_section (trig_id s))))
                    (out s @ trigger_section (trig_id s))"
    by (auto simp: gen_allreduce_supernode_def Let_def split: sum.splits)
  have "sn_inv (sn_init nodes) \<and> refs_issued (sn_init nodes)"
    by (simp add: sn_init_inv) (simp add: refs_issued_def sn_init_def)
  with run have inv: "sn_inv s \<and> refs_issued s"
    unfolding sn_run_def by (rule for_each_inv) (rule sn_iteration_issued)
  show ?thesis
  proof (rule closed_refs_from_bounds)
    show "trigger_defs ls = [1..trig_id s]" using inv by (simp add: ls sn_inv_def)
    show "\<forall>f \<in> set (flows_of ls). refs_from 1 f \<and> refs_below (trig_id s + 1) f"
      using inv by (auto simp: ls sn_inv_def refs_issued_def intro: refs_from_weaken)
  qed
qed


subsection \<open>IncHierarchical\<close>

lemma inc_closed_refs:
  assumes "gen_allreduce_inc R nodes k flowsize chunks f iterations window randseed = Inr ls"
  shows "closed_refs ls"
proof -
  from assms obtain s where run: "inc_run nodes k flowsize chunks f iterations window = Inr s"
    and ls: "ls = insert_header (connections s) (trig_id s)
                 (out s @ [Blank, Comment ''# --- TRIGGERS ---''] @ trigger_section (trig_id s))"
    by (auto simp: gen_allreduce_inc_def Let_def split: sum.splits)
  from inc_run_inv [OF run] have inv: "inc_inv s" by simp
  show ?thesis
  proof (rule closed_refs_from_bounds)
    show "trigger_defs ls = [1..trig_id s]" using inv by (simp add: ls inc_inv_def)
    show "\<forall>g \<in> set (flows_of ls). refs_from 1 g \<and> refs_below (trig_id s + 1) g"
      using inv by (auto simp: ls inc_inv_def intro: refs_from_weaken)
  qed
qed

subsection \<open>Tree\<close>

lemma for_each_adds:
  fixes n :: "'s \<Rightarrow> int"
  assumes "for_each body xs s = Inr s'"
    and "\<And>x t t'. x \<in> set xs \<Longrightarrow> body x t = Inr t' \<Longrightarrow> n t' = n t + k"
  shows "n s' = n s + k * int (length xs)"
  using assms
proof (induction xs arbitrary: s)
  case Nil
  then show ?case by simp
next
  case (Cons x xs)
  from Cons.prems(1) obtain t where t: "body x s = Inr t" and rest: "for_each body xs t = Inr s'"
    by (auto split: sum.splits)
  from Cons.prems(2) [OF _ t] have "n t = n s + k" by simp
  moreover have "n s' = n t + k * int (length xs)"
    using rest by (rule Cons.IH) (rule Cons.prems(2), simp_all)
  ultimately show ?case by (simp add: algebra_simps)
qed

lemma tree_upward_trig_id:
  assumes "1 \<le> nodes" and "tree_upward parents nodes flowsize (tree_init nodes) = Inr s1"
  shows "trig_id s1 = nodes"
proof -
  have "trig_id s1 = trig_id (print_line (Comment ''# Phase 1: Upward Reduction'') (tree_init nodes))
      + 1 * int (length (rev [1..nodes - 1]))"
    using assms(2) unfolding tree_upward_def
    by (rule for_each_adds) (auto simp: tree_up_def print_line_def split: option.splits)
  with assms(1) show ?thesis by (simp add: tree_init_def print_line_def)
qed

lemma tree_up_low:
  "tree_inv s \<and> (\<forall>f \<in> set (flows_of (out s)). refs_from 1 f) \<Longrightarrow>
   tree_up parents flowsize i s = Inr s' \<Longrightarrow>
   tree_inv s' \<and> (\<forall>f \<in> set (flows_of (out s')). refs_from 1 f)"
proof
  assume a: "tree_inv s \<and> (\<forall>f \<in> set (flows_of (out s)). refs_from 1 f)"
    and r: "tree_up parents flowsize i s = Inr s'"
  then show "tree_inv s'" by (blast intro: tree_up_inv)
  from a r show "\<forall>f \<in> set (flows_of (out s')). refs_from 1 f"
    by (fastforce simp: tree_inv_def tree_up_def print_line_def refs_from_def
        split: option.splits)
qed

lemma tree_down_child_low:
  assumes "2 \<le> nodes"
    and "tree_inv s \<and> nodes \<le> trig_id s \<and> (\<forall>f \<in> set (flows_of (out s)). refs_from 1 f)"
  shows "tree_inv (tree_down_child nodes flowsize parent cs child s)
     \<and> nodes \<le> trig_id (tree_down_child nodes flowsize parent cs child s)
     \<and> (\<forall>f \<in> set (flows_of (out (tree_down_child nodes flowsize parent cs child s))).
           refs_from 1 f)"
proof (intro conjI)
  from assms show "tree_inv (tree_down_child nodes flowsize parent cs child s)"
    by (simp add: tree_down_child_inv)
  from assms show "nodes \<le> trig_id (tree_down_child nodes flowsize parent cs child s)"
    by (simp add: tree_down_child_def print_line_def)
  from assms show "\<forall>f \<in> set (flows_of (out (tree_down_child nodes flowsize parent cs child s))).
           refs_from 1 f"
    by (auto simp: tree_down_child_def print_line_def refs_from_def)
qed

lemma tree_closed_refs:
  assumes "gen_allreduce_tree R nodes branch_factor flowsize randseed = Inr ls"
  shows "closed_refs ls"
proof (cases "nodes \<le> 1")
  case True
  from tree_small_file [OF True, of R branch_factor flowsize randseed] assms
  show ?thesis by (auto simp: closed_refs_def)
next
  case False
  then have big: "2 \<le> nodes" by simp
  from assms obtain children parents s1 s2
    where up: "tree_upward parents nodes flowsize (tree_init nodes) = Inr s1"
      and down: "tree_downward children nodes flowsize s1 = Inr s2"
      and ls: "ls = out s2 @ [Comment ''# Trigger Section''] @ trigger_section (trig_id s2)"
    by (auto simp: gen_allreduce_tree_def Let_def split: sum.splits prod.splits)
  have "tree_inv s1 \<and> (\<forall>f \<in> set (flows_of (out s1)). refs_from 1 f)"
    using up unfolding tree_upward_def
  proof (rule for_each_inv)
    show "tree_inv (print_line (Comment ''# Phase 1: Upward Reduction'') (tree_init nodes)) \<and>
      (\<forall>f \<in> set (flows_of (out (print_line (Comment ''# Phase 1: Upward Reduction'')
          (tree_init nodes)))). refs_from 1 f)"
      by (simp add: tree_print_comment_inv tree_init_inv) (simp add: print_line_def tree_init_def)
  qed (rule tree_up_low)
  moreover from tree_upward_trig_id [OF _ up] big have "trig_id s1 = nodes" by simp
  ultimately have start: "tree_inv (print_line (Comment ''# Phase 2: Downward Broadcast'') s1)
      \<and> nodes \<le> trig_id (print_line (Comment ''# Phase 2: Downward Broadcast'') s1)
      \<and> (\<forall>f \<in> set (flows_of (out (print_line (Comment ''# Phase 2: Downward Broadcast'') s1))).
            refs_from 1 f)"
    by (simp add: tree_print_comment_inv) (simp add: print_line_def)
  have fin: "tree_inv s2 \<and> nodes \<le> trig_id s2 \<and> (\<forall>f \<in> set (flows_of (out s2)). refs_from 1 f)"
    using down start unfolding tree_downward_def
  proof (rule for_each_inv)
    fix parent t t'
    assume t: "tree_inv t \<and> nodes \<le> trig_id t \<and> (\<forall>f \<in> set (flows_of (out t)). refs_from 1 f)"
      and "tree_down_parent children nodes flowsize parent t = Inr t'"
    then obtain cs where t': "t' = fold (tree_down_child nodes flowsize parent cs) cs t"
      by (auto simp: tree_down_parent_def split: option.splits)
    show "tree_inv t' \<and> nodes \<le> trig_id t' \<and> (\<forall>f \<in> set (flows_of (out t')). refs_from 1 f)"
      unfolding t' using t by (rule fold_inv) (rule tree_down_child_low [OF big])
  qed
  show ?thesis
  proof (rule closed_refs_from_bounds)
    show "trigger_defs ls = [1..trig_id s2]" using fin by (simp add: ls tree_inv_def)
    show "\<forall>f \<in> set (flows_of ls). refs_from 1 f \<and> refs_below (trig_id s2 + 1) f"
      using fin by (auto simp: ls tree_inv_def intro: refs_below_mono)
  qed
qed

text \<open>
  The Tree, Supernode and IncHierarchical files are closed in every completed run; the
  undeclared reference of C6 is particular to the Ring generator.
\<close>

lemma closed_refs_other_generators:
  "(gen_allreduce_tree R nodes branch_factor flowsize randseed = Inr ls \<longrightarrow> closed_refs ls)
   \<and> (gen_allreduce_supernode R nodes flowsize iterations randseed = Inr ls \<longrightarrow> closed_refs ls)
   \<and> (gen_allreduce_inc R nodes k flowsize chunks f iterations window randseed = Inr ls
        \<longrightarrow> closed_refs ls)"
  by (rule conjI, rule impI, erule tree_closed_refs, rule conjI, rule impI,
      erule sn_closed_refs, rule impI, erule inc_closed_refs)

end
